theory Spec2Isabelle
  imports Complex_Main "HOL-Library.Sublist"
begin

section \<open>JavaScript strings\<close>

text \<open>
  A JavaScript string is a sequence of UTF-16 code units; \<open>length\<close>, \<open>substring\<close>,
  \<open>indexOf\<close> and the regular expressions of \<open>route.ts\<close> (none has the \<open>u\<close> flag) all
  work on code units. A code unit is modelled by its number (an integer from 0 to 65535). ASCII literals are written
  through \<open>ascii\<close>; the Chinese literals of the source are spelled out by code unit.
\<close>

type_synonym jschar = int
type_synonym jsstring = "jschar list"

definition ascii :: "string \<Rightarrow> jsstring" where
  "ascii s = map of_char s"

text \<open>
  The code units that \<open>String.prototype.trim\<close>, the \<open>\s\<close> class and \<open>parseInt\<close> skip:
  ECMAScript's WhiteSpace (TAB, VT, FF, SP, NBSP, ZWNBSP and the category Zs) and
  LineTerminator (LF, CR, LS, PS).
\<close>

definition is_space :: "jschar \<Rightarrow> bool" where
  "is_space c \<longleftrightarrow>
     c \<in> set [9, 10, 11, 12, 13, 32, 160, 5760, 8192, 8193, 8194, 8195, 8196, 8197,
               8198, 8199, 8200, 8201, 8202, 8232, 8233, 8239, 8287, 12288, 65279]"

definition trim :: "jsstring \<Rightarrow> jsstring" where
  "trim s = rev (dropWhile is_space (rev (dropWhile is_space s)))"

text \<open>\<open>s.startsWith(p)\<close> and \<open>s.includes(p)\<close>.\<close>

fun startsWith :: "jsstring \<Rightarrow> jsstring \<Rightarrow> bool" where
  "startsWith s [] = True"
| "startsWith [] (p # ps) = False"
| "startsWith (x # xs) (p # ps) = (x = p \<and> startsWith xs ps)"

fun str_includes :: "jsstring \<Rightarrow> jsstring \<Rightarrow> bool" where
  "str_includes [] p = (p = [])"
| "str_includes (x # xs) p = (startsWith (x # xs) p \<or> str_includes xs p)"

text \<open>
  \<open>s.split(c)\<close> for a separator of one code unit: the pieces between the occurrences of
  \<open>c\<close>; the empty string gives one empty piece.
\<close>

fun split_on :: "jschar \<Rightarrow> jsstring \<Rightarrow> jsstring list" where
  "split_on c [] = [[]]"
| "split_on c (x # xs) =
     (if x = c then [] # split_on c xs
      else (case split_on c xs of
              [] \<Rightarrow> [[x]]
            | p # ps \<Rightarrow> (x # p) # ps))"

text \<open>\<open>parts.join(sep)\<close>.\<close>

fun join :: "jsstring \<Rightarrow> jsstring list \<Rightarrow> jsstring" where
  "join sep [] = []"
| "join sep [p] = p"
| "join sep (p # q # ps) = p @ sep @ join sep (q # ps)"

section \<open>parseInt\<close>

text \<open>
  \<open>parseInt(s)\<close> with no radix, as ECMAScript defines it: leading white space is skipped,
  one sign is read, a \<open>0x\<close> or \<open>0X\<close> prefix selects radix 16 (radix 10 otherwise), and the
  longest run of digits of that radix is the number; an empty run gives \<open>NaN\<close>, which is
  \<open>None\<close> here. The value is the mathematical integer, which is what the runtime
  returns for every result below \<open>2^53\<close>.
\<close>

definition digit_of :: "jschar \<Rightarrow> int option" where
  "digit_of c =
     (if 48 \<le> c \<and> c \<le> 57 then Some (c - 48)
      else if 97 \<le> c \<and> c \<le> 122 then Some (c - 87)
      else if 65 \<le> c \<and> c \<le> 90 then Some (c - 55)
      else None)"

definition is_digit :: "int \<Rightarrow> jschar \<Rightarrow> bool" where
  "is_digit radix c = (case digit_of c of None \<Rightarrow> False | Some d \<Rightarrow> d < radix)"

fun digits_value :: "int \<Rightarrow> int \<Rightarrow> jsstring \<Rightarrow> int" where
  "digits_value radix acc [] = acc"
| "digits_value radix acc (c # cs) =
     digits_value radix (acc * radix + (case digit_of c of None \<Rightarrow> 0 | Some d \<Rightarrow> d)) cs"

definition parseInt :: "jsstring \<Rightarrow> int option" where
  "parseInt input =
     (let s = dropWhile is_space input;
          sign = (if s \<noteq> [] \<and> hd s = 45 then - 1 else (1::int));
          s1 = (if s \<noteq> [] \<and> (hd s = 43 \<or> hd s = 45) then tl s else s);
          hex = (startsWith s1 (ascii ''0x'') \<or> startsWith s1 (ascii ''0X''));
          radix = (if hex then 16 else 10);
          s2 = (if hex then drop 2 s1 else s1);
          z = takeWhile (is_digit radix) s2
      in if z = [] then None else Some (sign * digits_value radix 0 z))"

text \<open>\<open>x || d\<close> for a number \<open>x\<close>: \<open>NaN\<close> and zero are falsy.\<close>

definition or_default :: "int option \<Rightarrow> int \<Rightarrow> int" where
  "or_default x d = (case x of None \<Rightarrow> d | Some n \<Rightarrow> if n = 0 then d else n)"

section \<open>The request and the day count\<close>

text \<open>\<open>TravelParams\<close> of \<open>route.ts\<close>; an optional field is absent (\<open>None\<close>) or a string.\<close>

record TravelParams =
  location :: jsstring
  destination :: "jsstring option"
  days :: jsstring
  travelers :: "jsstring option"
  preference :: "jsstring option"
  budget :: "jsstring option"
  user_id :: "jsstring option"

text \<open>
  The first lines of \<open>parseCozeResponseToItinerary\<close>:
  \<^verbatim>\<open>
  if (params.days.includes('-')) {
    const [_, maxDays] = params.days.split('-').map(d => parseInt(d));
    days = maxDays || 3;
  } else {
    days = parseInt(params.days) || 3;
  }
  \<close>
  The destructuring takes the second element of the array; with fewer than two elements
  \<open>maxDays\<close> is \<open>undefined\<close>, which is falsy.
\<close>

definition dayCount :: "jsstring \<Rightarrow> int" where
  "dayCount d =
     (if str_includes d (ascii ''-'')
      then (case map parseInt (split_on 45 d) of
              _ # maxDays # _ \<Rightarrow> or_default maxDays 3
            | _ \<Rightarrow> 3)
      else or_default (parseInt d) 3)"

text \<open>
  The budget field of the itinerary:
  \<^verbatim>\<open>budget: params.budget ? `...${params.budget}...` : '...'\<close>
  with the literals U+9884 U+7B97 U+7EA6 (before the value), U+5143 U+4EBA U+6C11 U+5E01
  (after it) and U+9884 U+7B97 U+4E0D U+9650 (no budget). An absent field and the empty
  string are falsy, every other string is truthy.
\<close>

definition budget_about :: jsstring where
  "budget_about = [39044, 31639, 32422]"

definition budget_yuan :: jsstring where
  "budget_yuan = [20803, 20154, 27665, 24065]"

definition budget_unlimited :: jsstring where
  "budget_unlimited = [39044, 31639, 19981, 38480]"

definition budget_text :: "jsstring option \<Rightarrow> jsstring" where
  "budget_text b =
     (case b of
        None \<Rightarrow> budget_unlimited
      | Some v \<Rightarrow> if v = [] then budget_unlimited else budget_about @ v @ budget_yuan)"

section \<open>Regular expressions\<close>

text \<open>
  The regular expressions of \<open>route.ts\<close> are sequences of literal code units, character
  classes, greedy and lazy stars over a class, one capture group, a positive lookahead
  and the end anchor. \<open>rmatch\<close> is the backtracking matcher of ECMAScript on such a
  sequence: it takes the rest of the pattern as the continuation, so the first success
  in the order of the alternatives (longer first for a greedy star, shorter first for a
  lazy one) is the result. It returns the input left after the match and the capture.
  The argument \<open>g\<close> is the input as it was where the group opened. A lookahead is
  matched once and not re-entered; none of the lookaheads of the source holds a group.
  The flag \<open>i\<close> of three of the expressions changes nothing: no code unit of their
  literals and classes has another case.
\<close>

datatype cclass = Space | AnyChar | OneOf "jschar list" | NoneOf "jschar list"

fun in_class :: "cclass \<Rightarrow> jschar \<Rightarrow> bool" where
  "in_class Space c = is_space c"
| "in_class AnyChar c = True"
| "in_class (OneOf cs) c = (c \<in> set cs)"
| "in_class (NoneOf cs) c = (c \<notin> set cs)"

datatype atom =
    Chr jschar
  | Cls cclass
  | StarG cclass
  | StarL cclass
  | GrpOpen
  | GrpClose
  | Look "atom list"
  | Eos

fun rmatch :: "atom list \<Rightarrow> jsstring \<Rightarrow> jsstring \<Rightarrow> jsstring option
                \<Rightarrow> (jsstring \<times> jsstring option) option" where
  "rmatch [] s g c = Some (s, c)"
| "rmatch (Chr a # r) [] g c = None"
| "rmatch (Chr a # r) (x # xs) g c = (if x = a then rmatch r xs g c else None)"
| "rmatch (Cls k # r) [] g c = None"
| "rmatch (Cls k # r) (x # xs) g c = (if in_class k x then rmatch r xs g c else None)"
| "rmatch (StarG k # r) [] g c = rmatch r [] g c"
| "rmatch (StarG k # r) (x # xs) g c =
     (if in_class k x
      then (case rmatch (StarG k # r) xs g c of
              Some res \<Rightarrow> Some res
            | None \<Rightarrow> rmatch r (x # xs) g c)
      else rmatch r (x # xs) g c)"
| "rmatch (StarL k # r) [] g c = rmatch r [] g c"
| "rmatch (StarL k # r) (x # xs) g c =
     (case rmatch r (x # xs) g c of
        Some res \<Rightarrow> Some res
      | None \<Rightarrow> if in_class k x then rmatch (StarL k # r) xs g c else None)"
| "rmatch (GrpOpen # r) s g c = rmatch r s s c"
| "rmatch (GrpClose # r) s g c = rmatch r s g (Some (take (length g - length s) g))"
| "rmatch (Look la # r) s g c =
     (case rmatch la s g c of None \<Rightarrow> None | Some _ \<Rightarrow> rmatch r s g c)"
| "rmatch (Eos # r) s g c = (if s = [] then rmatch r s g c else None)"

text \<open>
  \<open>s.match(re)\<close> for an expression without the \<open>g\<close> flag: the match is tried at index
  0, 1, ... up to the length of \<open>s\<close>, and the first index that matches wins. The result
  is element 0 (the matched text) and element 1 (the capture); \<open>None\<close> is \<open>null\<close>.
\<close>

fun str_match :: "atom list \<Rightarrow> jsstring \<Rightarrow> (jsstring \<times> jsstring option) option" where
  "str_match re [] =
     (case rmatch re [] [] None of
        None \<Rightarrow> None
      | Some (rest, cap) \<Rightarrow> Some ([], cap))"
| "str_match re (x # xs) =
     (case rmatch re (x # xs) [] None of
        None \<Rightarrow> str_match re xs
      | Some (rest, cap) \<Rightarrow> Some (take (length (x # xs) - length rest) (x # xs), cap))"

text \<open>
  \<open>s.match(re)\<close> for an expression with the \<open>g\<close> flag: all matches from left to right,
  each search starting where the last match ended (one code unit further after an empty
  match). \<open>skip\<close> counts the code units of the last match still to pass. The empty
  list stands for \<open>null\<close>.
\<close>

fun match_all_from :: "atom list \<Rightarrow> nat \<Rightarrow> jsstring \<Rightarrow> jsstring list" where
  "match_all_from re (Suc skip) (x # xs) = match_all_from re skip xs"
| "match_all_from re skip [] =
     (case rmatch re [] [] None of None \<Rightarrow> [] | Some _ \<Rightarrow> (if skip = 0 then [[]] else []))"
| "match_all_from re 0 (x # xs) =
     (case rmatch re (x # xs) [] None of
        None \<Rightarrow> match_all_from re 0 xs
      | Some (rest, cap) \<Rightarrow>
          take (length (x # xs) - length rest) (x # xs)
            # match_all_from re (length (x # xs) - length rest - 1) xs)"

definition match_all :: "atom list \<Rightarrow> jsstring \<Rightarrow> jsstring list" where
  "match_all re s = match_all_from re 0 s"

text \<open>
  \<open>s.split(re)\<close>: the pieces of \<open>s\<close> between the matches of \<open>re\<close>. \<open>acc\<close> is the piece
  being read, reversed; an empty match at the start of a piece is passed over, as
  ECMAScript does.
\<close>

fun split_from :: "atom list \<Rightarrow> nat \<Rightarrow> jsstring \<Rightarrow> jsstring \<Rightarrow> jsstring list" where
  "split_from re (Suc skip) acc (x # xs) = split_from re skip acc xs"
| "split_from re skip acc [] = [rev acc]"
| "split_from re 0 acc (x # xs) =
     (case rmatch re (x # xs) [] None of
        None \<Rightarrow> split_from re 0 (x # acc) xs
      | Some (rest, cap) \<Rightarrow>
          (if length rest = length (x # xs)
           then (if acc = [] then split_from re 0 [x] xs
                 else rev acc # split_from re 0 [x] xs)
           else rev acc # split_from re (length (x # xs) - length rest - 1) [] xs))"

definition split_re :: "atom list \<Rightarrow> jsstring \<Rightarrow> jsstring list" where
  "split_re re s =
     (if s = [] then (case rmatch re [] [] None of None \<Rightarrow> [[]] | Some _ \<Rightarrow> [])
      else split_from re 0 [] s)"

text \<open>\<open>s.replace(/p/g, r)\<close> for a literal pattern \<open>p\<close> that is not empty.\<close>

fun replace_all :: "jsstring \<Rightarrow> jsstring \<Rightarrow> nat \<Rightarrow> jsstring \<Rightarrow> jsstring" where
  "replace_all p r (Suc skip) (x # xs) = replace_all p r skip xs"
| "replace_all p r skip [] = []"
| "replace_all p r 0 (x # xs) =
     (if startsWith (x # xs) p then r @ replace_all p r (length p - 1) xs
      else x # replace_all p r 0 xs)"

section \<open>The Section Splitter\<close>

text \<open>
  The three anchors: U+65C5 U+884C U+63A8 U+8350, U+884C U+7A0B U+89C4 U+5212 and
  U+65C5 U+884C U+7EA2 U+9ED1 U+699C, each followed by a colon, full-width (U+FF1A) or
  half-width.
\<close>

definition anchor_title :: jsstring where
  "anchor_title = [26053, 34892, 25512, 33616]"

definition anchor_plan :: jsstring where
  "anchor_plan = [34892, 31243, 35268, 21010]"

definition anchor_highlights :: jsstring where
  "anchor_highlights = [26053, 34892, 32418, 40657, 27036]"

definition colon :: cclass where
  "colon = OneOf [65306, 58]"

definition has_anchor :: "jsstring \<Rightarrow> jsstring \<Rightarrow> bool" where
  "has_anchor a t \<longleftrightarrow> str_includes t (a @ [65306]) \<or> str_includes t (a @ [58])"

text \<open>
  \<^verbatim>\<open>/<title>[<colons>]\s*([\s\S]*?)(?=\s*<plan>[<colons>])/i\<close>,
  \<^verbatim>\<open>/<plan>[<colons>]\s*([\s\S]*?)(?=\s*<highlights>[<colons>])/i\<close> and
  \<^verbatim>\<open>/<highlights>[<colons>]\s*([\s\S]*?)$/i\<close>.
\<close>

definition titleRegex :: "atom list" where
  "titleRegex =
     map Chr anchor_title @ [Cls colon, StarG Space, GrpOpen, StarL AnyChar, GrpClose,
       Look (StarG Space # map Chr anchor_plan @ [Cls colon])]"

definition planRegex :: "atom list" where
  "planRegex =
     map Chr anchor_plan @ [Cls colon, StarG Space, GrpOpen, StarL AnyChar, GrpClose,
       Look (StarG Space # map Chr anchor_highlights @ [Cls colon])]"

definition highlightsRegex :: "atom list" where
  "highlightsRegex =
     map Chr anchor_highlights @ [Cls colon, StarG Space, GrpOpen, StarL AnyChar, GrpClose,
       Eos]"

text \<open>\<^verbatim>\<open>/\n\s*\n/\<close>, the separator of paragraphs.\<close>

definition paragraphRegex :: "atom list" where
  "paragraphRegex = [Chr 10, StarG Space, Chr 10]"

text \<open>
  One extraction:
  \<^verbatim>\<open>
  let title = '';
  const titleMatch = cozeText.match(titleRegex);
  if (titleMatch && titleMatch[1]) { title = titleMatch[1].trim(); }
  \<close>
\<close>

definition section_of :: "atom list \<Rightarrow> jsstring \<Rightarrow> jsstring" where
  "section_of re cozeText =
     (case str_match re cozeText of
        None \<Rightarrow> []
      | Some (whole, cap) \<Rightarrow>
          (case cap of None \<Rightarrow> [] | Some c \<Rightarrow> if c = [] then [] else trim c))"

text \<open>
  The fallback of the splitter, entered when \<open>!title && !plan && !highlights\<close>:
  paragraphs when there are at least three, lines when there are at least two, and
  otherwise the whole text as the plan under the fixed title U+4F60 U+7684 U+65C5 U+884C
  U+8BA1 U+5212 and the fixed highlights U+6839 U+636E \<open>AI\<close> U+751F U+6210.
\<close>

definition placeholder_title :: jsstring where
  "placeholder_title = [20320, 30340, 26053, 34892, 35745, 21010]"

definition placeholder_highlights :: jsstring where
  "placeholder_highlights = [26681, 25454, 65, 73, 29983, 25104]"

definition fallback_sections :: "jsstring \<Rightarrow> jsstring \<times> jsstring \<times> jsstring" where
  "fallback_sections cozeText =
     (let paragraphs = split_re paragraphRegex cozeText
      in if length paragraphs \<ge> 3
         then (hd paragraphs, join [10, 10] (butlast (tl paragraphs)), last paragraphs)
         else (let lines = split_on 10 cozeText
               in if length lines > 1
                  then (hd lines, join [10] (tl lines), [])
                  else (placeholder_title, cozeText, placeholder_highlights)))"

text \<open>The three sections (title, plan, highlights) of a text.\<close>

definition split_sections :: "jsstring \<Rightarrow> jsstring \<times> jsstring \<times> jsstring" where
  "split_sections cozeText =
     (let title = section_of titleRegex cozeText;
          plan = section_of planRegex cozeText;
          highlights = section_of highlightsRegex cozeText
      in if title = [] \<and> plan = [] \<and> highlights = []
         then fallback_sections cozeText
         else (title, plan, highlights))"

text \<open>
  A text in the separated format: the three anchors, each with a half-width colon and
  its section, and one line feed between the sections.
\<close>

definition separated_text :: "jsstring \<Rightarrow> jsstring \<Rightarrow> jsstring \<Rightarrow> jsstring" where
  "separated_text a b c =
     anchor_title @ 58 # a @ 10 # anchor_plan @ 58 # b @ 10 # anchor_highlights @ 58 # c"

section \<open>JSON values and the runtime\<close>

text \<open>
  The values \<open>JSON.parse\<close> returns. An object is the list of its properties in the order
  in which \<open>for ... in\<close> enumerates them, each key once; an array is the list of its
  elements. A number is given by its real value (zero is the falsy one).
\<close>

datatype json =
    JNull
  | JBool bool
  | JNum real
  | JStr jsstring
  | JArr "json list"
  | JObj "(jsstring \<times> json) list"

text \<open>
  Three parts of the JavaScript runtime are parameters of the model: \<open>JSON.parse\<close>, with
  \<open>None\<close> for a \<open>SyntaxError\<close>; the conversion of a number to a string; and the clock,
  \<open>Date.now()\<close>, in milliseconds, taken as one reading for the whole call.
\<close>

record runtime =
  JSON_parse :: "jsstring \<Rightarrow> json option"
  NumberToString :: "real \<Rightarrow> jsstring"
  Date_now :: int

text \<open>
  The conversion of a value to a string, as a template literal and \<open>+=\<close> on a string
  apply it; \<open>None\<close> is the \<open>TypeError\<close> it may throw. A parsed object has no callable
  property of its own, so an object with a property \<open>toString\<close> of its own cannot be
  converted (its \<open>valueOf\<close> is not callable either, or is the inherited one, which
  returns the object), and every other object gives \<open>[object Object]\<close>. An array is
  converted by \<open>join\<close>: its elements, converted, with commas between them, \<open>null\<close> giving
  the empty string. The order in which \<open>+\<close> (first \<open>valueOf\<close>) and a template (first
  \<open>toString\<close>) ask makes no difference on parsed values.
\<close>

fun js_to_string :: "runtime \<Rightarrow> json \<Rightarrow> jsstring option"
  and js_join :: "runtime \<Rightarrow> json list \<Rightarrow> jsstring option" where
  "js_to_string rt JNull = Some (ascii ''null'')"
| "js_to_string rt (JBool b) = Some (if b then ascii ''true'' else ascii ''false'')"
| "js_to_string rt (JNum x) = Some (NumberToString rt x)"
| "js_to_string rt (JStr s) = Some s"
| "js_to_string rt (JObj kvs) =
     (if map_of kvs (ascii ''toString'') = None then Some (ascii ''[object Object]'')
      else None)"
| "js_to_string rt (JArr vs) = js_join rt vs"
| "js_join rt [] = Some []"
| "js_join rt (v # vs) =
     (case (if v = JNull then Some [] else js_to_string rt v) of
        None \<Rightarrow> None
      | Some s \<Rightarrow>
          if vs = [] then Some s
          else (case js_join rt vs of None \<Rightarrow> None | Some r \<Rightarrow> Some (s @ 44 # r)))"

text \<open>
  Whether \<open>v.length\<close> can be converted (to a string in a template, to a number by
  \<open>< 50\<close>) for a truthy \<open>v\<close>: the length of a string or an array is a number, a number or
  a boolean has none (\<open>undefined\<close>), and an object has the property of that name if it
  holds one, which is then converted as above.
\<close>

definition length_converts :: "runtime \<Rightarrow> json \<Rightarrow> bool" where
  "length_converts rt v =
     (case v of
        JObj kvs \<Rightarrow>
          (case map_of kvs (ascii ''length'') of
             None \<Rightarrow> True
           | Some l \<Rightarrow> js_to_string rt l \<noteq> None)
      | _ \<Rightarrow> True)"

text \<open>The conversion of a value that may be \<open>undefined\<close>, which gives \<open>undefined\<close>.\<close>

definition converts_opt :: "runtime \<Rightarrow> json option \<Rightarrow> bool" where
  "converts_opt rt v = (case v of None \<Rightarrow> True | Some x \<Rightarrow> js_to_string rt x \<noteq> None)"

text \<open>Truthiness; \<open>None\<close> stands for \<open>undefined\<close>.\<close>

fun truthy :: "json \<Rightarrow> bool" where
  "truthy JNull = False"
| "truthy (JBool b) = b"
| "truthy (JNum x) = (x \<noteq> 0)"
| "truthy (JStr s) = (s \<noteq> [])"
| "truthy (JArr vs) = True"
| "truthy (JObj kvs) = True"

definition truthy_opt :: "json option \<Rightarrow> bool" where
  "truthy_opt v = (case v of None \<Rightarrow> False | Some x \<Rightarrow> truthy x)"

text \<open>
  \<open>val_or v d\<close> is \<open>v\<close> when \<open>v\<close> is truthy and \<open>d\<close> otherwise: the value of \<open>v || d\<close>, and
  of \<open>x\<close> after \<open>if (v) x = v; else x = d\<close>.
\<close>

definition val_or :: "json option \<Rightarrow> json \<Rightarrow> json" where
  "val_or v d = (case v of None \<Rightarrow> d | Some x \<Rightarrow> if truthy x then x else d)"

text \<open>
  \<open>v[key]\<close> for the keys the source reads (\<open>type\<close>, \<open>object\<close>, \<open>value\<close>, \<open>message\<close>,
  \<open>content\<close>, \<open>delta\<close>, \<open>answer\<close>, \<open>text\<close>, \<open>is_finish\<close>, \<open>error\<close>, \<open>code\<close>): an
  object gives its property, every other value that is not \<open>null\<close> gives \<open>undefined\<close>,
  since no prototype has a property of these names. \<open>chain v a b\<close> is \<open>v.a?.b\<close>.
\<close>

fun get_prop :: "json \<Rightarrow> jsstring \<Rightarrow> json option" where
  "get_prop (JObj kvs) key = map_of kvs key"
| "get_prop JNull key = None"
| "get_prop (JBool b) key = None"
| "get_prop (JNum x) key = None"
| "get_prop (JStr s) key = None"
| "get_prop (JArr vs) key = None"

definition chain :: "json \<Rightarrow> jsstring \<Rightarrow> jsstring \<Rightarrow> json option" where
  "chain v a b =
     (case get_prop v a of
        None \<Rightarrow> None
      | Some JNull \<Rightarrow> None
      | Some w \<Rightarrow> get_prop w b)"

text \<open>\<open>typeof v === 'object'\<close>.\<close>

fun is_object_type :: "json \<Rightarrow> bool" where
  "is_object_type JNull = True"
| "is_object_type (JArr vs) = True"
| "is_object_type (JObj kvs) = True"
| "is_object_type (JBool b) = False"
| "is_object_type (JNum x) = False"
| "is_object_type (JStr s) = False"

text \<open>
  The first of the given keys whose value in \<open>obj\<close> is a string that is not blank:
  \<^verbatim>\<open>if (typeof obj[key] === 'string' && obj[key].trim()) ...\<close>
\<close>

fun first_text :: "json \<Rightarrow> jsstring list \<Rightarrow> jsstring option" where
  "first_text obj [] = None"
| "first_text obj (k # ks) =
     (case get_prop obj k of
        Some (JStr s) \<Rightarrow> if trim s \<noteq> [] then Some s else first_text obj ks
      | _ \<Rightarrow> first_text obj ks)"

section \<open>The Event Interpreter\<close>

text \<open>
  The variables of \<open>generateCozeItinerary\<close> that the handling of an event reads and
  writes. \<open>completeResponse\<close> starts as the empty string and may be assigned any value of
  the payload.
\<close>

record interp_state =
  accumulatedResponse :: jsstring
  completeResponse :: json
  deltaCount :: nat
  isFinished :: bool

definition init_state :: interp_state where
  "init_state = \<lparr> accumulatedResponse = [], completeResponse = JStr [],
                  deltaCount = 0, isFinished = False \<rparr>"

text \<open>
  What a failed ingestion throws: the \<open>TypeError\<close> of a property read on \<open>null\<close>, of a
  conversion to a string or of \<open>substring\<close> on a value that is not a string, the error
  of an \<open>error\<close> message (with \<open>error.code\<close> and \<open>error.message\<close>), the error of an
  \<open>error\<close> event (with the payload), the error of the empty response, and the
  \<open>RangeError\<close> of \<open>toISOString\<close> on a date that is not valid.
\<close>

datatype error =
    TypeError
  | CozeError "json option" "json option"
  | StreamError json
  | EmptyResponse
  | RangeError

text \<open>
  \<open>travelPattern\<close>: the three anchors in order, each with a colon and \<open>\s*\<close>, with lazy
  \<open>[\s\S]*?\<close> between them and a greedy \<open>[\s\S]*\<close> at the end. \<open>contentPattern\<close> is
  \<^verbatim>\<open>/"content"\s*:\s*"([^"]+)"/\<close>.
\<close>

definition travelPattern :: "atom list" where
  "travelPattern =
     map Chr anchor_title @ [Cls colon, StarG Space, StarL AnyChar]
     @ map Chr anchor_plan @ [Cls colon, StarG Space, StarL AnyChar]
     @ map Chr anchor_highlights @ [Cls colon, StarG Space, StarG AnyChar]"

definition contentPattern :: "atom list" where
  "contentPattern =
     map Chr [34, 99, 111, 110, 116, 101, 110, 116, 34]
     @ [StarG Space, Chr 58, StarG Space, Chr 34, GrpOpen, Cls (NoneOf [34]),
        StarG (NoneOf [34]), GrpClose, Chr 34]"

text \<open>
  The unescaping of the fast path: \<open>\n\<close> (backslash, n) becomes a line feed, \<open>\"\<close> a
  quote, and then \<open>\\\<close> one backslash.
\<close>

definition unescape_newlines :: "jsstring \<Rightarrow> jsstring" where
  "unescape_newlines s = replace_all [92, 110] [10] 0 s"

definition unescape_quotes :: "jsstring \<Rightarrow> jsstring" where
  "unescape_quotes s = replace_all [92, 34] [34] 0 s"

definition unescape_backslashes :: "jsstring \<Rightarrow> jsstring" where
  "unescape_backslashes s = replace_all [92, 92] [92] 0 s"

text \<open>
  The body of \<open>if (deltaCount === 2)\<close>: the anchored text of the raw event data if the
  pattern matches, else the first of the \<open>"content"\<close> field, \<open>object.value\<close> and
  \<open>message.content\<close> that is there; the value found becomes \<open>completeResponse\<close> and
  \<open>isFinished\<close> is set. Before the value found is assigned its \<open>length\<close> is written
  into the log line, which throws when that cannot be converted.
\<close>

definition travel_match :: "jsstring \<Rightarrow> jsstring" where
  "travel_match eventData =
     (case str_match travelPattern eventData of None \<Rightarrow> [] | Some (whole, cap) \<Rightarrow> whole)"

definition content_capture :: "jsstring \<Rightarrow> jsstring" where
  "content_capture eventData =
     (case str_match contentPattern eventData of
        Some (whole, Some c) \<Rightarrow> c
      | _ \<Rightarrow> [])"

definition extractedContent :: "jsstring \<Rightarrow> json \<Rightarrow> json" where
  "extractedContent eventData dataObj =
     (if content_capture eventData \<noteq> []
      then JStr (unescape_quotes (unescape_newlines (content_capture eventData)))
      else val_or (chain dataObj (ascii ''object'') (ascii ''value''))
             (val_or (chain dataObj (ascii ''message'') (ascii ''content'')) (JStr [])))"

definition fast_path :: "runtime \<Rightarrow> jsstring \<Rightarrow> json \<Rightarrow> interp_state
                          \<Rightarrow> error + interp_state" where
  "fast_path rt eventData dataObj st =
     (if travel_match eventData \<noteq> []
      then Inr (st\<lparr> completeResponse :=
                       JStr (unescape_backslashes (unescape_quotes (unescape_newlines
                               (travel_match eventData)))),
                    isFinished := True \<rparr>)
      else if truthy (extractedContent eventData dataObj)
      then (if length_converts rt (extractedContent eventData dataObj)
            then Inr (st\<lparr> completeResponse := extractedContent eventData dataObj,
                          isFinished := True \<rparr>)
            else Inl TypeError)
      else Inr st)"

text \<open>
  \<open>findTextContent\<close>: in an object or an array, the first of the keys \<open>content\<close>,
  \<open>text\<close>, \<open>value\<close>, \<open>answer\<close>, \<open>message\<close> with a string that is not blank; failing
  that, the first result that is not empty among the properties whose \<open>typeof\<close> is
  \<open>'object'\<close>, in enumeration order.
\<close>

definition contentKeys :: "jsstring list" where
  "contentKeys = [ascii ''content'', ascii ''text'', ascii ''value'', ascii ''answer'',
                  ascii ''message'']"

fun findTextContent :: "json \<Rightarrow> jsstring"
  and findTextContent_values :: "json list \<Rightarrow> jsstring"
  and findTextContent_props :: "(jsstring \<times> json) list \<Rightarrow> jsstring" where
  "findTextContent (JObj kvs) =
     (case first_text (JObj kvs) contentKeys of
        Some s \<Rightarrow> s
      | None \<Rightarrow> findTextContent_props kvs)"
| "findTextContent (JArr vs) =
     (case first_text (JArr vs) contentKeys of
        Some s \<Rightarrow> s
      | None \<Rightarrow> findTextContent_values vs)"
| "findTextContent JNull = []"
| "findTextContent (JBool b) = []"
| "findTextContent (JNum x) = []"
| "findTextContent (JStr s) = []"
| "findTextContent_values [] = []"
| "findTextContent_values (v # vs) =
     (if is_object_type v \<and> findTextContent v \<noteq> [] then findTextContent v
      else findTextContent_values vs)"
| "findTextContent_props [] = []"
| "findTextContent_props (kv # kvs) =
     (if is_object_type (snd kv) \<and> findTextContent (snd kv) \<noteq> [] then findTextContent (snd kv)
      else findTextContent_props kvs)"

text \<open>
  The content of a \<open>message.delta\<close> or \<open>answer\<close> message: the first truthy one of
  \<open>message.content\<close>, \<open>object.value\<close>, \<open>delta.content\<close>, \<open>content\<close>, then \<open>answer\<close> if it
  is a string, then \<open>text\<close> if truthy; and \<open>findTextContent\<close> when that is falsy.
\<close>

definition deltaContent :: "json \<Rightarrow> json" where
  "deltaContent dataObj =
     (let d =
        val_or (chain dataObj (ascii ''message'') (ascii ''content''))
          (val_or (chain dataObj (ascii ''object'') (ascii ''value''))
             (val_or (chain dataObj (ascii ''delta'') (ascii ''content''))
                (val_or (get_prop dataObj (ascii ''content''))
                   (case get_prop dataObj (ascii ''answer'') of
                      Some (JStr s) \<Rightarrow> JStr s
                    | _ \<Rightarrow> val_or (get_prop dataObj (ascii ''text'')) (JStr [])))))
      in if truthy d then d else JStr (findTextContent dataObj))"

text \<open>
  The handling of a parsed payload after the fast path: messages and deltas, the
  \<open>error\<close> event, and the events without content. The content found is appended with
  \<open>+=\<close>, which converts it to a string, and its \<open>length\<close> is compared or logged; the
  message of an \<open>error\<close> message is built from \<open>error.code\<close> and \<open>error.message\<close> in a
  template. Each of these conversions may throw a \<open>TypeError\<close>.
\<close>

definition messageType :: "json \<Rightarrow> json" where
  "messageType dataObj =
     val_or (get_prop dataObj (ascii ''type'')) (JStr (ascii ''message.delta''))"

definition regular_event :: "runtime \<Rightarrow> jsstring \<Rightarrow> json \<Rightarrow> interp_state
                              \<Rightarrow> error + interp_state" where
  "regular_event rt eventType dataObj st =
     (if eventType = ascii ''message''
         \<or> str_includes eventType (ascii ''conversation.message.delta'')
      then
        (if messageType dataObj = JStr (ascii ''message.delta'')
            \<or> messageType dataObj = JStr (ascii ''answer'')
         then
           (if truthy (deltaContent dataObj)
            then (case js_to_string rt (deltaContent dataObj) of
                    None \<Rightarrow> Inl TypeError
                  | Some s \<Rightarrow>
                      if length_converts rt (deltaContent dataObj)
                      then Inr (st\<lparr> accumulatedResponse := accumulatedResponse st @ s \<rparr>)
                      else Inl TypeError)
            else Inr st)
         else if messageType dataObj = JStr (ascii ''generate_answer_finish'')
                 \<or> (truthy_opt (get_prop dataObj (ascii ''message''))
                     \<and> chain dataObj (ascii ''message'') (ascii ''is_finish'')
                         = Some (JBool True))
                 \<or> str_includes eventType (ascii ''conversation.message.completed'')
         then Inr (st\<lparr> isFinished := True \<rparr>)
         else if messageType dataObj = JStr (ascii ''error'')
         then (if converts_opt rt (chain dataObj (ascii ''error'') (ascii ''code''))
                  \<and> converts_opt rt (chain dataObj (ascii ''error'') (ascii ''message''))
               then Inl (CozeError (chain dataObj (ascii ''error'') (ascii ''code''))
                                   (chain dataObj (ascii ''error'') (ascii ''message'')))
               else Inl TypeError)
         else Inr st)
      else if eventType = ascii ''error''
      then Inl (StreamError dataObj)
      else if eventType = ascii ''ping'' \<or> eventType = ascii ''done''
              \<or> str_includes eventType (ascii ''conversation.chat'')
      then (if eventType = ascii ''done'' then Inr (st\<lparr> isFinished := True \<rparr>) else Inr st)
      else Inr st)"

text \<open>
  One event: nothing for empty data; a \<open>SyntaxError\<close> of \<open>JSON.parse\<close> is caught and the
  event skipped; the payload \<open>null\<close> throws at \<open>dataObj.type\<close>; the log line converts
  \<open>dataObj.type || '...'\<close> (the default is U+672A U+77E5) to a string, which may throw; a
  delta event whose payload has the type \<open>answer\<close> is counted, and the second one runs
  the fast path; then the regular handling.
\<close>

definition log_type :: "json \<Rightarrow> json" where
  "log_type dataObj = val_or (get_prop dataObj (ascii ''type'')) (JStr [26410, 30693])"

definition is_answer_delta :: "runtime \<Rightarrow> jsstring \<Rightarrow> jsstring \<Rightarrow> bool" where
  "is_answer_delta rt eventType eventData \<longleftrightarrow>
     eventData \<noteq> [] \<and> eventType = ascii ''conversation.message.delta''
     \<and> (case JSON_parse rt eventData of
          None \<Rightarrow> False
        | Some dataObj \<Rightarrow> get_prop dataObj (ascii ''type'') = Some (JStr (ascii ''answer'')))"

definition count_delta :: "runtime \<Rightarrow> jsstring \<Rightarrow> json \<Rightarrow> interp_state
                            \<Rightarrow> error + interp_state" where
  "count_delta rt eventData dataObj st =
     (let st1 = st\<lparr> deltaCount := deltaCount st + 1 \<rparr>
      in if deltaCount st1 = 2 then fast_path rt eventData dataObj st1 else Inr st1)"

definition process_event :: "runtime \<Rightarrow> jsstring \<Rightarrow> jsstring \<Rightarrow> interp_state
                              \<Rightarrow> error + interp_state" where
  "process_event rt eventType eventData st =
     (if eventData = [] then Inr st
      else (case JSON_parse rt eventData of
              None \<Rightarrow> Inr st
            | Some dataObj \<Rightarrow>
                if dataObj = JNull then Inl TypeError
                else if js_to_string rt (log_type dataObj) = None then Inl TypeError
                else (case (if eventType = ascii ''conversation.message.delta''
                               \<and> get_prop dataObj (ascii ''type'')
                                   = Some (JStr (ascii ''answer''))
                            then count_delta rt eventData dataObj st
                            else Inr st) of
                        Inl e \<Rightarrow> Inl e
                      | Inr st1 \<Rightarrow> regular_event rt eventType dataObj st1)))"

section \<open>The Frame Reader and the Stream Accumulator\<close>

text \<open>
  The lines of a frame: \<open>event:\<close> sets the event type, \<open>data:\<close> the data, both trimmed;
  the last line of each kind wins; the type starts as \<open>message\<close>, the data as empty.
\<close>

fun frame_fields :: "jsstring list \<Rightarrow> jsstring \<times> jsstring \<Rightarrow> jsstring \<times> jsstring" where
  "frame_fields [] (eventType, eventData) = (eventType, eventData)"
| "frame_fields (l # ls) (eventType, eventData) =
     (if startsWith l (ascii ''event:'') then frame_fields ls (trim (drop 6 l), eventData)
      else if startsWith l (ascii ''data:'') then frame_fields ls (eventType, trim (drop 5 l))
      else frame_fields ls (eventType, eventData))"

definition parse_frame :: "jsstring \<Rightarrow> jsstring \<times> jsstring" where
  "parse_frame chunk = frame_fields (split_on 10 chunk) (ascii ''message'', [])"

definition handle_chunk :: "runtime \<Rightarrow> jsstring \<Rightarrow> interp_state \<Rightarrow> error + interp_state" where
  "handle_chunk rt chunk st =
     (if trim chunk = [] then Inr st
      else process_event rt (fst (parse_frame chunk)) (snd (parse_frame chunk)) st)"

text \<open>\<open>s.indexOf(p)\<close>, with \<open>None\<close> for \<open>-1\<close>.\<close>

fun indexOf :: "jsstring \<Rightarrow> jsstring \<Rightarrow> nat option" where
  "indexOf [] p = (if p = [] then Some 0 else None)"
| "indexOf (x # xs) p =
     (if startsWith (x # xs) p then Some 0
      else (case indexOf xs p of None \<Rightarrow> None | Some i \<Rightarrow> Some (Suc i)))"

text \<open>
  The inner loop: while the buffer holds the delimiter of two line feeds, the text before
  it is taken off the buffer and handled. The loop does not look at \<open>isFinished\<close>. The
  result is the buffer that is left and the state, or the error thrown.
\<close>

function process_frames :: "runtime \<Rightarrow> jsstring \<Rightarrow> interp_state
                             \<Rightarrow> error + (jsstring \<times> interp_state)" where
  "process_frames rt buffer st =
     (case indexOf buffer [10, 10] of
        None \<Rightarrow> Inr (buffer, st)
      | Some boundaryIndex \<Rightarrow>
          (case handle_chunk rt (take boundaryIndex buffer) st of
             Inl e \<Rightarrow> Inl e
           | Inr st1 \<Rightarrow> process_frames rt (drop (boundaryIndex + 2) buffer) st1))"
  by pat_completeness auto
termination
proof (relation "measure (\<lambda>(rt, buffer, st). length buffer)")
  show "wf (measure (\<lambda>(rt, buffer, st). length buffer))"
    by simp
next
  fix rt :: runtime and buffer :: jsstring and st st1 :: interp_state and boundaryIndex :: nat
  assume "indexOf buffer [10, 10] = Some boundaryIndex"
  then have "buffer \<noteq> []"
    by (cases buffer) auto
  then show "((rt, drop (boundaryIndex + 2) buffer, st1), (rt, buffer, st))
               \<in> measure (\<lambda>(rt, buffer, st). length buffer)"
    by simp
qed

declare process_frames.simps [simp del]

text \<open>
  The outer loop \<open>while (!isFinished)\<close>: each text the transport delivers is appended to
  the buffer and the frames are handled; the loop ends when \<open>isFinished\<close> is set or the
  transport is done. The transport is the list of the decoded texts it delivers.
\<close>

fun read_loop :: "runtime \<Rightarrow> jsstring list \<Rightarrow> jsstring \<Rightarrow> interp_state
                   \<Rightarrow> error + (jsstring \<times> interp_state)" where
  "read_loop rt [] buffer st = Inr (buffer, st)"
| "read_loop rt (newText # later) buffer st =
     (if isFinished st then Inr (buffer, st)
      else (case process_frames rt (buffer @ newText) st of
              Inl e \<Rightarrow> Inl e
            | Inr (buffer1, st1) \<Rightarrow> read_loop rt later buffer1 st1))"

section \<open>Raw Recovery and the result\<close>

text \<open>
  \<open>findText\<close> of the recovery: in an object or an array, in enumeration order, a string
  whose trimmed length is over 20 is returned, and a property whose \<open>typeof\<close> is
  \<open>'object'\<close> is searched, its result returned when not empty.
\<close>

fun findText :: "json \<Rightarrow> jsstring"
  and findText_values :: "json list \<Rightarrow> jsstring"
  and findText_props :: "(jsstring \<times> json) list \<Rightarrow> jsstring" where
  "findText (JObj kvs) = findText_props kvs"
| "findText (JArr vs) = findText_values vs"
| "findText JNull = []"
| "findText (JBool b) = []"
| "findText (JNum x) = []"
| "findText (JStr s) = []"
| "findText_values [] = []"
| "findText_values (v # vs) =
     (case v of
        JStr s \<Rightarrow> if length (trim s) > 20 then s else findText_values vs
      | _ \<Rightarrow> if is_object_type v \<and> findText v \<noteq> [] then findText v
             else findText_values vs)"
| "findText_props [] = []"
| "findText_props (kv # kvs) =
     (case snd kv of
        JStr s \<Rightarrow> if length (trim s) > 20 then s else findText_props kvs
      | _ \<Rightarrow> if is_object_type (snd kv) \<and> findText (snd kv) \<noteq> [] then findText (snd kv)
             else findText_props kvs)"

text \<open>
  \<^verbatim>\<open>/\{[\s\S]*?\}/g\<close>, the candidates for JSON objects in the buffer, the keys tried on
  each parsed candidate, and the pattern of the three anchors without colons.
\<close>

definition jsonPattern :: "atom list" where
  "jsonPattern = [Chr 123, StarL AnyChar, Chr 125]"

definition textFields :: "jsstring list" where
  "textFields = [ascii ''content'', ascii ''text'', ascii ''answer'', ascii ''value'',
                 ascii ''message'']"

definition recoveryPattern :: "atom list" where
  "recoveryPattern =
     map Chr anchor_title @ [StarL AnyChar] @ map Chr anchor_plan @ [StarL AnyChar]
     @ map Chr anchor_highlights @ [StarG AnyChar]"

text \<open>
  The loop over the candidates. \<open>finalResponse\<close> is the value of the variable on entry.
  A candidate that does not parse, or parses to \<open>null\<close> (where \<open>Object.keys\<close> throws), is
  passed over by the inner \<open>catch\<close>. On a parsed candidate the first text field is
  assigned if there is one; if \<open>finalResponse\<close> is still falsy, \<open>findText\<close> is tried; the
  loop stops as soon as \<open>finalResponse\<close> is truthy.
\<close>

fun recover_loop :: "runtime \<Rightarrow> json \<Rightarrow> jsstring list \<Rightarrow> json" where
  "recover_loop rt finalResponse [] = finalResponse"
| "recover_loop rt finalResponse (jsonStr # others) =
     (case JSON_parse rt jsonStr of
        None \<Rightarrow> recover_loop rt finalResponse others
      | Some obj \<Rightarrow>
          if obj = JNull then recover_loop rt finalResponse others
          else
            (let f1 = (case first_text obj textFields of
                         Some s \<Rightarrow> JStr s
                       | None \<Rightarrow> finalResponse);
                 f2 = (if \<not> truthy f1 \<and> is_object_type obj \<and> findText obj \<noteq> []
                       then JStr (findText obj) else f1)
             in if truthy f2 then f2 else recover_loop rt f2 others))"

text \<open>
  The recovery from a buffer that is not empty: the loop over the candidates, then, if
  \<open>finalResponse\<close> is still falsy, the text from the first anchor on, or else the whole
  buffer.
\<close>

definition raw_recovery :: "runtime \<Rightarrow> jsstring \<Rightarrow> json \<Rightarrow> json" where
  "raw_recovery rt buffer finalResponse =
     (let f = recover_loop rt finalResponse (match_all jsonPattern buffer)
      in if truthy f then f
         else (case str_match recoveryPattern buffer of
                 Some (whole, cap) \<Rightarrow> JStr whole
               | None \<Rightarrow> JStr buffer))"

text \<open>
  \<open>v.length === 0\<close>: the empty string, the empty array, and an object with a property
  \<open>length\<close> that is the number zero.
\<close>

fun length_is_zero :: "json \<Rightarrow> bool" where
  "length_is_zero (JStr s) = (s = [])"
| "length_is_zero (JArr vs) = (vs = [])"
| "length_is_zero (JObj kvs) = (map_of kvs (ascii ''length'') = Some (JNum 0))"
| "length_is_zero JNull = False"
| "length_is_zero (JBool b) = False"
| "length_is_zero (JNum x) = False"

text \<open>
  The final text: \<open>completeResponse || accumulatedResponse\<close>, and when its length is
  zero the recovery from the buffer, or the error of the empty response when the buffer
  is empty too.
\<close>

definition final_text :: "runtime \<Rightarrow> jsstring \<Rightarrow> interp_state \<Rightarrow> error + json" where
  "final_text rt buffer st =
     (let finalResponse = (if truthy (completeResponse st) then completeResponse st
                           else JStr (accumulatedResponse st))
      in if length_is_zero finalResponse
         then (if buffer \<noteq> [] then Inr (raw_recovery rt buffer finalResponse)
               else Inl EmptyResponse)
         else Inr finalResponse)"

section \<open>The itinerary\<close>

text \<open>
  \<open>new Date(v).toISOString()\<close> throws a \<open>RangeError\<close> unless \<open>v\<close> is a time value: at
  most 8.64e15 milliseconds from the epoch on either side.
\<close>

definition valid_time :: "int \<Rightarrow> bool" where
  "valid_time v \<longleftrightarrow> - 8640000000000000 \<le> v \<and> v \<le> 8640000000000000"

text \<open>
  \<open>parseCozeResponseToItinerary\<close>; \<open>now\<close> is the reading of the clock. The record holds
  the fields of \<open>Itinerary\<close> that are computed from the text, the request and the clock:
  the three sections, the summary and the budget, the local \<open>days\<close>, and the time
  values of \<open>startDate\<close> and \<open>endDate\<close>. The end date
  \<^verbatim>\<open>new Date(Date.now() + days * 86400000).toISOString()\<close>
  is the one date that may not be valid; the dates of the daily skeleton lie between
  the clock and the end date. The destination and the fixed recommendations are not
  part of this model.
\<close>

record Itinerary =
  summary :: jsstring
  budget_field :: jsstring
  title :: jsstring
  plan :: jsstring
  highlights :: jsstring
  day_count :: int
  start_time :: int
  end_time :: int

definition parseCozeResponseToItinerary :: "int \<Rightarrow> jsstring \<Rightarrow> TravelParams
                                             \<Rightarrow> error + Itinerary" where
  "parseCozeResponseToItinerary now cozeText params =
     (let (t, p, h) = split_sections cozeText;
          s0 = (if t = [] then take 200 cozeText else t);
          s1 = (if length s0 \<ge> 200 then s0 @ ascii ''...'' else s0)
      in if valid_time (now + dayCount (days params) * 86400000)
         then Inr \<lparr> summary = s1, budget_field = budget_text (budget params),
                    title = t, plan = p, highlights = h, day_count = dayCount (days params),
                    start_time = now, end_time = now + dayCount (days params) * 86400000 \<rparr>
         else Inl RangeError)"

text \<open>
  The end of \<open>generateCozeItinerary\<close>: \<open>finalResponse.substring\<close> throws a \<open>TypeError\<close>
  unless the final text is a string, which is then handed to
  \<open>parseCozeResponseToItinerary\<close>.
\<close>

definition finish :: "runtime \<Rightarrow> TravelParams \<Rightarrow> jsstring \<Rightarrow> interp_state
                       \<Rightarrow> error + Itinerary" where
  "finish rt params buffer st =
     (case final_text rt buffer st of
        Inl e \<Rightarrow> Inl e
      | Inr (JStr s) \<Rightarrow> parseCozeResponseToItinerary (Date_now rt) s params
      | Inr _ \<Rightarrow> Inl TypeError)"

text \<open>
  \<open>generateCozeItinerary\<close> from the point where the response body is read: the texts of
  the transport are run through the loops from the initial state, and the result is
  built from what is left. The configuration check and the HTTP request before that
  point are not part of the model.
\<close>

definition generateCozeItinerary :: "runtime \<Rightarrow> TravelParams \<Rightarrow> jsstring list
                                      \<Rightarrow> error + Itinerary" where
  "generateCozeItinerary rt params texts =
     (case read_loop rt texts [] init_state of
        Inl e \<Rightarrow> Inl e
      | Inr (buffer, st) \<Rightarrow> finish rt params buffer st)"

section \<open>Events in sequence, frames, and a runtime for the examples\<close>

text \<open>
  The events of a stream handled one after the other, stopping at the first error; each
  event is a pair of the event type and the event data.
\<close>

fun run_events :: "runtime \<Rightarrow> (jsstring \<times> jsstring) list \<Rightarrow> interp_state
                    \<Rightarrow> error + interp_state" where
  "run_events rt [] st = Inr st"
| "run_events rt (ev # evs) st =
     (case process_event rt (fst ev) (snd ev) st of
        Inl e \<Rightarrow> Inl e
      | Inr st1 \<Rightarrow> run_events rt evs st1)"


text \<open>
  The event data of an answer delta whose content is the separated text of \<open>A\<close>, \<open>B\<close> and
  \<open>C\<close>, the line feeds escaped as JSON does (a backslash and \<open>n\<close>).
\<close>

definition anchored_data :: jsstring where
  "anchored_data =
     ascii ''{\"type\":\"answer\",\"content\":\"''
     @ anchor_title @ [58, 65, 92, 110] @ anchor_plan @ [58, 66, 92, 110]
     @ anchor_highlights @ [58, 67] @ ascii ''\"}''"

text \<open>
  The runtime of the examples. Its \<open>JSON.parse\<close> is the real one on the payloads listed
  and on every text that is not JSON (such as \<open>{oops\<close>); the examples parse nothing else
  and convert no number to a string. Its clock stands at 1700000000000.
\<close>

definition sample_parse :: "jsstring \<Rightarrow> json option" where
  "sample_parse s =
     (if s = ascii ''{}'' then Some (JObj [])
      else if s = anchored_data
      then Some (JObj [(ascii ''type'', JStr (ascii ''answer'')),
                       (ascii ''content'',
                        JStr (separated_text (ascii ''A'') (ascii ''B'') (ascii ''C'')))])
      else if s = ascii ''{\"type\":{\"toString\":\"x\"}}''
      then Some (JObj [(ascii ''type'', JObj [(ascii ''toString'', JStr (ascii ''x''))])])
      else if s = ascii ''{\"type\":\"answer\",\"content\":{\"toString\":1}}''
      then Some (JObj [(ascii ''type'', JStr (ascii ''answer'')),
                       (ascii ''content'', JObj [(ascii ''toString'', JNum 1)])])
      else if s = ascii ''{\"type\":\"answer\",\"content\":\"one\"}''
      then Some (JObj [(ascii ''type'', JStr (ascii ''answer'')),
                       (ascii ''content'', JStr (ascii ''one''))])
      else if s = ascii ''{\"type\":\"answer\",\"content\":\"two\"}''
      then Some (JObj [(ascii ''type'', JStr (ascii ''answer'')),
                       (ascii ''content'', JStr (ascii ''two''))])
      else if s = ascii ''{\"type\":\"answer\",\"content\":\"three\"}''
      then Some (JObj [(ascii ''type'', JStr (ascii ''answer'')),
                       (ascii ''content'', JStr (ascii ''three''))])
      else None)"

definition sample_runtime :: runtime where
  "sample_runtime = \<lparr> JSON_parse = sample_parse, NumberToString = (\<lambda>x. []),
                       Date_now = 1700000000000 \<rparr>"

text \<open>The event type and the event data of the answer deltas of the examples.\<close>

definition delta_type :: jsstring where
  "delta_type = ascii ''conversation.message.delta''"

definition answer_data :: "jsstring \<Rightarrow> jsstring" where
  "answer_data k = ascii ''{\"type\":\"answer\",\"content\":\"'' @ k @ ascii ''\"}''"

definition answer_frame :: "jsstring \<Rightarrow> jsstring" where
  "answer_frame k = ascii ''event: '' @ delta_type @ [10] @ ascii ''data: '' @ answer_data k"

definition sample_params :: TravelParams where
  "sample_params = \<lparr> location = ascii ''X'', destination = None, days = ascii ''3'',
                      travelers = None, preference = None, budget = None, user_id = None \<rparr>"



text \<open>The frame of a \<open>ping\<close> event.\<close>

definition ping_frame :: jsstring where
  "ping_frame = ascii ''event: ping'' @ [10] @ ascii ''data: {}''"

section \<open>Properties of the day count and the budget field\<close>

lemma str_includes_single: "str_includes d [c] \<longleftrightarrow> c \<in> set d"
  by (induction d) auto

lemma split_on_no_sep: "c \<notin> set a \<Longrightarrow> split_on c a = [a]"
  by (induction a) auto

lemma split_on_append: "c \<notin> set a \<Longrightarrow> split_on c (a @ c # b) = a # split_on c b"
  by (induction a) auto

lemma dayCount_range:
  assumes "45 \<notin> set a" and "45 \<notin> set b"
  shows "dayCount (a @ 45 # b) = or_default (parseInt b) 3"
proof -
  have "str_includes (a @ 45 # b) (ascii ''-'')"
    by (simp add: ascii_def str_includes_single)
  moreover have "split_on 45 (a @ 45 # b) = [a, b]"
    using assms by (simp add: split_on_append split_on_no_sep)
  ultimately show ?thesis
    by (simp add: dayCount_def)
qed

text \<open>
  C1, as stated, fails in two places. The string \<open>0\<close> parses to the integer 0, and the
  day count is 3. For the reversed range \<open>7-5\<close> both parts parse, their maximum is 7,
  and the day count is 5, the second part.
\<close>

theorem dayCount_counterexample:
  "parseInt (ascii ''0'') = Some 0 \<and> dayCount (ascii ''0'') = 3
   \<and> parseInt (ascii ''7'') = Some 7 \<and> parseInt (ascii ''5'') = Some 5
   \<and> dayCount (ascii ''7-5'') = 5 \<and> dayCount (ascii ''7-5'') \<noteq> max 7 5"
  by code_simp

text \<open>
  C1, amended. Without a hyphen the day count is the integer \<open>parseInt\<close> reads from the
  whole string, and 3 when \<open>parseInt\<close> fails or reads zero. For a range \<open>a-b\<close> (one
  hyphen) whose parts parse as \<open>n \<le> m\<close> with \<open>m\<close> not zero, the day count is the maximum
  of the two, which is \<open>m\<close>; when the second part fails to parse or is zero, the day
  count is 3.
\<close>

theorem dayCount_amended:
  "(\<not> str_includes d (ascii ''-'') \<longrightarrow>
      dayCount d = (case parseInt d of None \<Rightarrow> 3 | Some k \<Rightarrow> if k = 0 then 3 else k))
   \<and> (45 \<notin> set a \<and> 45 \<notin> set b \<and> parseInt a = Some n \<and> parseInt b = Some m
        \<and> n \<le> m \<and> m \<noteq> 0 \<longrightarrow> dayCount (a @ 45 # b) = max n m)
   \<and> (45 \<notin> set a \<and> 45 \<notin> set b \<and> (parseInt b = None \<or> parseInt b = Some 0) \<longrightarrow>
        dayCount (a @ 45 # b) = 3)"
proof (intro conjI impI)
  assume "\<not> str_includes d (ascii ''-'')"
  then show "dayCount d = (case parseInt d of None \<Rightarrow> 3 | Some k \<Rightarrow> if k = 0 then 3 else k)"
    by (simp add: dayCount_def or_default_def)
next
  assume h: "45 \<notin> set a \<and> 45 \<notin> set b \<and> parseInt a = Some n \<and> parseInt b = Some m
             \<and> n \<le> m \<and> m \<noteq> 0"
  then have "dayCount (a @ 45 # b) = or_default (Some m) 3"
    using dayCount_range [of a b] by simp
  with h show "dayCount (a @ 45 # b) = max n m"
    by (simp add: or_default_def max_def)
next
  assume h: "45 \<notin> set a \<and> 45 \<notin> set b \<and> (parseInt b = None \<or> parseInt b = Some 0)"
  then have "dayCount (a @ 45 # b) = or_default (parseInt b) 3"
    using dayCount_range [of a b] by simp
  with h show "dayCount (a @ 45 # b) = 3"
    by (auto simp: or_default_def)
qed

theorem dayCount_amended_witness:
  "dayCount (ascii ''4'') = 4 \<and> dayCount (ascii ''0'') = 3
   \<and> dayCount (ascii ''3'' @ 45 # ascii ''5'') = 5
   \<and> dayCount (ascii ''5'' @ 45 # ascii ''abc'') = 3"
proof -
  have p4: "parseInt (ascii ''4'') = Some 4" and p0: "parseInt (ascii ''0'') = Some 0"
    and p3: "parseInt (ascii ''3'') = Some 3" and p5: "parseInt (ascii ''5'') = Some 5"
    and pe: "parseInt (ascii ''abc'') = None"
    by code_simp+
  have n4: "\<not> str_includes (ascii ''4'') (ascii ''-'')"
    and n0: "\<not> str_includes (ascii ''0'') (ascii ''-'')"
    by code_simp+
  have s: "45 \<notin> set (ascii ''3'')" "45 \<notin> set (ascii ''5'')" "45 \<notin> set (ascii ''abc'')"
    by (simp_all add: ascii_def)
  show ?thesis
    using dayCount_amended [of "ascii ''4''" "ascii ''3''" "ascii ''5''" 3 5]
      dayCount_amended [of "ascii ''0''" "ascii ''5''" "ascii ''abc''" 0 0]
      p4 p0 p3 p5 pe n4 n0 s
    by simp
qed

text \<open>
  C9 at the value the form sends for an unlimited budget, the string U+4E0D U+9650: it is
  not numeric, and the budget field is the interpolated text, not the text for no
  budget.
\<close>

theorem budget_text_unlimited_marker:
  "budget_text (Some [19981, 38480])
     = [39044, 31639, 32422, 19981, 38480, 20803, 20154, 27665, 24065]
   \<and> budget_text (Some [19981, 38480]) \<noteq> budget_unlimited
   \<and> parseInt [19981, 38480] = None"
  by code_simp

section \<open>Properties of the Section Splitter\<close>

subsection \<open>A match shows the literals of its expression in the text\<close>

lemma startsWith_append_iff:
  "startsWith s (a @ b) \<longleftrightarrow> startsWith s a \<and> startsWith (drop (length a) s) b"
proof (induction a arbitrary: s)
  case Nil
  then show ?case by simp
next
  case (Cons x a)
  then show ?case by (cases s) auto
qed

lemma suffix_startsWith_includes:
  "suffix u s \<Longrightarrow> startsWith u p \<Longrightarrow> str_includes s p"
proof (induction s)
  case Nil
  then show ?case by (cases p) auto
next
  case (Cons x xs)
  then show ?case by (auto simp: suffix_Cons)
qed

lemma rmatch_lits:
  "rmatch (map Chr a @ r) s g c = Some res
   \<Longrightarrow> startsWith s a \<and> rmatch r (drop (length a) s) g c = Some res"
proof (induction a arbitrary: s)
  case Nil
  then show ?case by simp
next
  case (Cons x a)
  then show ?case by (cases s) (auto split: if_splits)
qed

lemma rmatch_colon:
  "rmatch (Cls colon # r) s g c = Some res
   \<Longrightarrow> (startsWith s [65306] \<or> startsWith s [58]) \<and> rmatch r (drop 1 s) g c = Some res"
  by (cases s) (auto simp: colon_def split: if_splits)

lemma rmatch_StarG_suffix:
  "rmatch (StarG k # r) s g c = Some res \<Longrightarrow> \<exists>u. suffix u s \<and> rmatch r u g c = Some res"
proof (induction s)
  case Nil
  then show ?case by auto
next
  case (Cons x xs)
  show ?case
  proof (cases "in_class k x \<and> rmatch (StarG k # r) xs g c \<noteq> None")
    case True
    with Cons.prems have "rmatch (StarG k # r) xs g c = Some res" by auto
    with Cons.IH obtain u where "suffix u xs" "rmatch r u g c = Some res" by blast
    then show ?thesis by (auto simp: suffix_Cons)
  next
    case False
    with Cons.prems have "rmatch r (x # xs) g c = Some res"
      by (auto split: if_splits option.splits)
    then show ?thesis by blast
  qed
qed

lemma rmatch_StarL_suffix:
  "rmatch (StarL k # r) s g c = Some res \<Longrightarrow> \<exists>u. suffix u s \<and> rmatch r u g c = Some res"
proof (induction s)
  case Nil
  then show ?case by auto
next
  case (Cons x xs)
  show ?case
  proof (cases "rmatch r (x # xs) g c")
    case (Some a)
    with Cons.prems have "rmatch r (x # xs) g c = Some res" by simp
    then show ?thesis by blast
  next
    case None
    with Cons.prems have "rmatch (StarL k # r) xs g c = Some res"
      by (auto split: if_splits)
    with Cons.IH obtain u where "suffix u xs" "rmatch r u g c = Some res" by blast
    then show ?thesis by (auto simp: suffix_Cons)
  qed
qed

lemma str_match_suffix:
  "str_match re s = Some res \<Longrightarrow> \<exists>u r. suffix u s \<and> rmatch re u [] None = Some r"
proof (induction s)
  case Nil
  then show ?case by (auto split: option.splits)
next
  case (Cons x xs)
  show ?case
  proof (cases "rmatch re (x # xs) [] None")
    case None
    with Cons.prems have "str_match re xs = Some res" by simp
    with Cons.IH obtain u r where "suffix u xs" "rmatch re u [] None = Some r" by blast
    then show ?thesis by (auto simp: suffix_Cons)
  next
    case (Some a)
    then show ?thesis by blast
  qed
qed

text \<open>An expression that starts with an anchor and a colon matches only at an anchor.\<close>

lemma anchored_match:
  assumes "rmatch (map Chr a @ Cls colon # r) u g c = Some res"
  shows "(startsWith u (a @ [65306]) \<or> startsWith u (a @ [58]))
         \<and> rmatch r (drop (Suc (length a)) u) g c = Some res"
proof -
  from assms have 1: "startsWith u a"
    and 2: "rmatch (Cls colon # r) (drop (length a) u) g c = Some res"
    using rmatch_lits by blast+
  from rmatch_colon [OF 2] have 3: "startsWith (drop (length a) u) [65306] \<or> startsWith (drop (length a) u) [58]"
    and 4: "rmatch r (drop 1 (drop (length a) u)) g c = Some res" by blast+
  from 4 have 5: "rmatch r (drop (Suc (length a)) u) g c = Some res" by simp
  from 1 3 have "startsWith u (a @ [65306]) \<or> startsWith u (a @ [58])"
    using startsWith_append_iff by blast
  with 5 show ?thesis by blast
qed

lemma anchored_search:
  assumes "str_match (map Chr a @ Cls colon # r) t = Some res"
  shows "has_anchor a t"
proof -
  from str_match_suffix [OF assms] obtain u r'
    where u: "suffix u t" "rmatch (map Chr a @ Cls colon # r) u [] None = Some r'"
    by blast
  from anchored_match [OF u(2)]
  have "startsWith u (a @ [65306]) \<or> startsWith u (a @ [58])" by blast
  with u(1) have "str_includes t (a @ [65306]) \<or> str_includes t (a @ [58])"
    using suffix_startsWith_includes by blast
  then show ?thesis
    by (simp add: has_anchor_def)
qed

text \<open>
  An expression that ends in the lookahead for the next anchor matches only when that
  anchor follows.
\<close>

lemma lookahead_tail:
  assumes "rmatch [StarG Space, GrpOpen, StarL AnyChar, GrpClose,
             Look (StarG Space # map Chr b @ [Cls colon])] s g c = Some res"
  shows "\<exists>z. suffix z s \<and> (startsWith z (b @ [65306]) \<or> startsWith z (b @ [58]))"
proof -
  let ?la = "StarG Space # map Chr b @ [Cls colon]"
  from rmatch_StarG_suffix [OF assms] obtain v
    where v: "suffix v s"
      "rmatch [GrpOpen, StarL AnyChar, GrpClose, Look ?la] v g c = Some res"
    by blast
  from v(2) have "rmatch (StarL AnyChar # [GrpClose, Look ?la]) v v c = Some res"
    by simp
  from rmatch_StarL_suffix [OF this] obtain w
    where w: "suffix w v" "rmatch [GrpClose, Look ?la] w v c = Some res"
    by blast
  define c' where "c' = Some (take (length v - length w) v)"
  from w(2) have "rmatch [Look ?la] w v c' = Some res"
    by (simp add: c'_def)
  then have "rmatch ?la w v c' \<noteq> None"
    by (cases "rmatch ?la w v c'") simp_all
  then obtain r2 where "rmatch (StarG Space # (map Chr b @ [Cls colon])) w v c' = Some r2"
    by blast
  from rmatch_StarG_suffix [OF this] obtain z
    where z: "suffix z w" "rmatch (map Chr b @ [Cls colon]) z v c' = Some r2"
    by blast
  from z(2) have "rmatch (map Chr b @ Cls colon # []) z v c' = Some r2" by simp
  from anchored_match [OF this]
  have "startsWith z (b @ [65306]) \<or> startsWith z (b @ [58])" by blast
  moreover have "suffix z s"
    using z(1) w(1) v(1) by (meson suffix_order.trans)
  ultimately show ?thesis by blast
qed

lemma lookahead_search:
  assumes "str_match (map Chr a @ [Cls colon, StarG Space, GrpOpen, StarL AnyChar, GrpClose,
             Look (StarG Space # map Chr b @ [Cls colon])]) t = Some res"
  shows "has_anchor b t"
proof -
  let ?tl = "[StarG Space, GrpOpen, StarL AnyChar, GrpClose,
               Look (StarG Space # map Chr b @ [Cls colon])]"
  from assms have "str_match (map Chr a @ Cls colon # ?tl) t = Some res" by simp
  from str_match_suffix [OF this] obtain u r'
    where u: "suffix u t" "rmatch (map Chr a @ Cls colon # ?tl) u [] None = Some r'"
    by blast
  from anchored_match [OF u(2)]
  have "rmatch ?tl (drop (Suc (length a)) u) [] None = Some r'" by blast
  from lookahead_tail [OF this] obtain z
    where z: "suffix z (drop (Suc (length a)) u)"
      "startsWith z (b @ [65306]) \<or> startsWith z (b @ [58])"
    by blast
  have "suffix z t"
    using z(1) u(1) by (meson suffix_drop suffix_order.trans)
  with z(2) have "str_includes t (b @ [65306]) \<or> str_includes t (b @ [58])"
    using suffix_startsWith_includes by blast
  then show ?thesis
    by (simp add: has_anchor_def)
qed

subsection \<open>Without its anchors a section stays empty\<close>

lemma title_match_anchors:
  assumes "str_match titleRegex t = Some res"
  shows "has_anchor anchor_title t \<and> has_anchor anchor_plan t"
proof -
  note m = assms [unfolded titleRegex_def]
  have "has_anchor anchor_title t" using m by (rule anchored_search)
  moreover have "has_anchor anchor_plan t" using m by (rule lookahead_search)
  ultimately show ?thesis by blast
qed

lemma plan_match_anchors:
  assumes "str_match planRegex t = Some res"
  shows "has_anchor anchor_plan t \<and> has_anchor anchor_highlights t"
proof -
  note m = assms [unfolded planRegex_def]
  have "has_anchor anchor_plan t" using m by (rule anchored_search)
  moreover have "has_anchor anchor_highlights t" using m by (rule lookahead_search)
  ultimately show ?thesis by blast
qed

lemma highlights_match_anchor:
  assumes "str_match highlightsRegex t = Some res"
  shows "has_anchor anchor_highlights t"
  using assms [unfolded highlightsRegex_def] by (rule anchored_search)

lemma section_of_title_empty:
  assumes "\<not> has_anchor anchor_title t \<or> \<not> has_anchor anchor_plan t"
  shows "section_of titleRegex t = []"
proof (cases "str_match titleRegex t")
  case None
  then show ?thesis by (simp add: section_of_def)
next
  case (Some res)
  with assms title_match_anchors show ?thesis by blast
qed

lemma section_of_plan_empty:
  assumes "\<not> has_anchor anchor_plan t \<or> \<not> has_anchor anchor_highlights t"
  shows "section_of planRegex t = []"
proof (cases "str_match planRegex t")
  case None
  then show ?thesis by (simp add: section_of_def)
next
  case (Some res)
  with assms plan_match_anchors show ?thesis by blast
qed

lemma section_of_highlights_empty:
  assumes "\<not> has_anchor anchor_highlights t"
  shows "section_of highlightsRegex t = []"
proof (cases "str_match highlightsRegex t")
  case None
  then show ?thesis by (simp add: section_of_def)
next
  case (Some res)
  with assms highlights_match_anchor show ?thesis by blast
qed

section \<open>The splitter on a text that is already separated\<close>

subsection \<open>Literals without white space\<close>

lemma startsWith_within:
  assumes "startsWith (u @ v) p" and "\<forall>x\<in>set p. \<not> is_space x"
    and "v = [] \<or> is_space (hd v)"
  shows "startsWith u p"
  using assms
proof (induction u arbitrary: p)
  case Nil
  then show ?case by (cases p; cases v) auto
next
  case (Cons y us)
  then show ?case by (cases p) auto
qed

lemma str_includes_drop: "startsWith (drop i u) p \<Longrightarrow> str_includes u p"
  using suffix_startsWith_includes [of "drop i u" u p] suffix_drop by blast

lemma str_includes_append_left: "str_includes u p \<Longrightarrow> str_includes (w @ u) p"
  by (induction w) auto

lemma startsWith_append_right: "startsWith u p \<Longrightarrow> startsWith (u @ v) p"
proof (induction u arbitrary: p)
  case Nil
  then show ?case by (cases p) auto
next
  case (Cons x u)
  then show ?case by (cases p) auto
qed

lemma str_includes_append_right: "str_includes u p \<Longrightarrow> str_includes (u @ v) p"
proof (induction u)
  case Nil
  then show ?case by (cases p) (auto simp: str_includes_append_left [of "[]", simplified])
next
  case (Cons x u)
  then show ?case using startsWith_append_right [of "x # u" p v] by auto
qed

lemma str_includes_space:
  assumes "\<forall>x\<in>set p. \<not> is_space x" and "p \<noteq> []" and "is_space s"
  shows "str_includes (u @ s # v) p \<longleftrightarrow> str_includes u p \<or> str_includes v p"
proof (induction u)
  case Nil
  have "\<not> startsWith (s # v) p"
    using assms by (cases p) auto
  then show ?case using assms(2) by simp
next
  case (Cons x u)
  have "startsWith (x # u @ s # v) p \<longleftrightarrow> startsWith (x # u) p"
    using startsWith_within [of "x # u" "s # v" p] startsWith_append_right [of "x # u" p "s # v"]
      assms(1,3) by auto
  with Cons show ?case by auto
qed

subsection \<open>The matcher on literals and stars\<close>

lemma rmatch_lits_eq:
  "startsWith s a \<Longrightarrow> rmatch (map Chr a @ r) s g c = rmatch r (drop (length a) s) g c"
proof (induction a arbitrary: s)
  case Nil
  then show ?case by simp
next
  case (Cons x a)
  then show ?case by (cases s) auto
qed

lemma rmatch_lits_none:
  "\<not> startsWith s a \<Longrightarrow> rmatch (map Chr a @ r) s g c = None"
proof (induction a arbitrary: s)
  case Nil
  then show ?case by simp
next
  case (Cons x a)
  then show ?case by (cases s) auto
qed

lemma rmatch_StarG_greedy:
  assumes "\<forall>x\<in>set ws. in_class k x" and "s = [] \<or> \<not> in_class k (hd s)"
    and "rmatch r s g c = Some res"
  shows "rmatch (StarG k # r) (ws @ s) g c = Some res"
  using assms(1)
proof (induction ws)
  case Nil
  show ?case using assms(2,3) by (cases s) auto
next
  case (Cons w ws)
  then show ?case by simp
qed

lemma rmatch_StarG_skip:
  assumes "\<And>s'. s' \<noteq> [] \<Longrightarrow> in_class k (hd s') \<Longrightarrow> rmatch r s' g c = None"
  shows "rmatch (StarG k # r) u g c = rmatch r (dropWhile (in_class k) u) g c"
proof (induction u)
  case Nil
  then show ?case by simp
next
  case (Cons x xs)
  show ?case
  proof (cases "in_class k x")
    case True
    have "rmatch r (x # xs) g c = None"
      using assms [of "x # xs"] True by simp
    with True have "rmatch (StarG k # r) (x # xs) g c = rmatch (StarG k # r) xs g c"
      by (cases "rmatch (StarG k # r) xs g c") simp_all
    with True Cons show ?thesis by simp
  next
    case False
    then show ?thesis by simp
  qed
qed

lemma rmatch_StarL_first:
  "rmatch r s g c = Some res \<Longrightarrow> rmatch (StarL k # r) s g c = Some res"
  by (cases s) auto

lemma rmatch_StarL_skip:
  "\<forall>i<n. rmatch r (drop i s) g c = None \<Longrightarrow> n \<le> length s
   \<Longrightarrow> rmatch (StarL AnyChar # r) s g c = rmatch (StarL AnyChar # r) (drop n s) g c"
proof (induction n arbitrary: s)
  case 0
  then show ?case by simp
next
  case (Suc n)
  then obtain x xs where s: "s = x # xs" by (cases s) auto
  from Suc.prems(1) have 0: "rmatch r s g c = None" by force
  have "\<forall>i<n. rmatch r (drop i xs) g c = None"
  proof (intro allI impI)
    fix i assume "i < n"
    then have "rmatch r (drop (Suc i) s) g c = None" using Suc.prems(1) by simp
    then show "rmatch r (drop i xs) g c = None" by (simp add: s)
  qed
  moreover have "n \<le> length xs" using Suc.prems(2) s by simp
  ultimately have "rmatch (StarL AnyChar # r) xs g c = rmatch (StarL AnyChar # r) (drop n xs) g c"
    by (rule Suc.IH)
  with 0 s show ?case by simp
qed

lemma str_match_skip:
  "\<forall>i<n. rmatch re (drop i t) [] None = None \<Longrightarrow> n < length t
   \<Longrightarrow> rmatch re (drop n t) [] None = Some (rest, cap)
   \<Longrightarrow> str_match re t = Some (take (length t - n - length rest) (drop n t), cap)"
proof (induction n arbitrary: t)
  case 0
  then obtain x xs where "t = x # xs" by (cases t) auto
  with 0 show ?case by simp
next
  case (Suc n)
  then obtain x xs where t: "t = x # xs" by (cases t) auto
  from Suc.prems(1) have 0: "rmatch re t [] None = None" by force
  have "\<forall>i<n. rmatch re (drop i xs) [] None = None"
  proof (intro allI impI)
    fix i assume "i < n"
    then have "rmatch re (drop (Suc i) t) [] None = None" using Suc.prems(1) by simp
    then show "rmatch re (drop i xs) [] None = None" by (simp add: t)
  qed
  moreover have "n < length xs" using Suc.prems(2) t by simp
  moreover have "rmatch re (drop n xs) [] None = Some (rest, cap)"
    using Suc.prems(3) t by simp
  ultimately have "str_match re xs = Some (take (length xs - n - length rest) (drop n xs), cap)"
    by (rule Suc.IH)
  with 0 t show ?case by simp
qed

subsection \<open>Trimming\<close>

lemma trim_decompose:
  assumes "trim a \<noteq> []"
  shows "\<exists>w1 w2. a = w1 @ trim a @ w2 \<and> (\<forall>x\<in>set w1. is_space x) \<and> (\<forall>x\<in>set w2. is_space x)
           \<and> \<not> is_space (hd (trim a)) \<and> \<not> is_space (last (trim a))"
proof -
  define d where "d = dropWhile is_space a"
  define w1 where "w1 = takeWhile is_space a"
  define w2 where "w2 = rev (takeWhile is_space (rev d))"
  have t: "trim a = rev (dropWhile is_space (rev d))"
    by (simp add: trim_def d_def)
  have a: "a = w1 @ d"
    by (simp add: w1_def d_def)
  have "rev (takeWhile is_space (rev d) @ dropWhile is_space (rev d)) = d"
    by (simp only: takeWhile_dropWhile_id rev_rev_ident)
  then have "rev (dropWhile is_space (rev d)) @ rev (takeWhile is_space (rev d)) = d"
    by (simp only: rev_append)
  then have d: "d = trim a @ w2"
    by (simp only: t w2_def)
  have s1: "\<forall>x\<in>set w1. is_space x"
    unfolding w1_def by (auto dest: set_takeWhileD)
  have s2: "\<forall>x\<in>set w2. is_space x"
    unfolding w2_def by (auto dest: set_takeWhileD)
  have "d \<noteq> []" using d assms by simp
  then have "\<not> is_space (hd d)"
    unfolding d_def by (rule hd_dropWhile)
  with d assms have h: "\<not> is_space (hd (trim a))" by simp
  have "dropWhile is_space (rev d) \<noteq> []"
    using assms t by simp
  then have "\<not> is_space (hd (dropWhile is_space (rev d)))"
    by (rule hd_dropWhile)
  with assms t have l: "\<not> is_space (last (trim a))"
    by (simp add: last_rev)
  from a d s1 s2 h l show ?thesis by blast
qed

lemma trim_fixed:
  assumes "s \<noteq> []" and "\<not> is_space (hd s)" and "\<not> is_space (last s)"
  shows "trim s = s"
proof -
  from assms(1,2) have 1: "dropWhile is_space s = s"
    by (cases s) auto
  from assms(1,3) have "dropWhile is_space (rev s) = rev s"
    by (cases "rev s") (auto simp: last_rev hd_rev)
  with 1 show ?thesis by (simp add: trim_def)
qed

lemma trim_dropWhile: "trim (dropWhile is_space c) = trim c"
  by (simp add: trim_def)

lemma dropWhile_spaces:
  assumes "\<forall>x\<in>set w. is_space x" and "s = [] \<or> \<not> is_space (hd s)"
  shows "dropWhile is_space (w @ s) = s"
proof -
  have "dropWhile is_space (w @ s) = dropWhile is_space s"
    using assms(1) by (simp add: dropWhile_append2)
  also have "\<dots> = s"
    using assms(2) by (cases s) auto
  finally show ?thesis .
qed

subsection \<open>The lookahead for the next anchor\<close>

lemma anchor_colon_match:
  "rmatch (map Chr b @ [Cls colon]) s g c
   = (if startsWith s (b @ [65306]) \<or> startsWith s (b @ [58])
      then Some (drop (Suc (length b)) s, c) else None)"
proof (cases "startsWith s b")
  case False
  then show ?thesis
    by (simp add: rmatch_lits_none startsWith_append_iff)
next
  case True
  show ?thesis
  proof (cases "drop (length b) s")
    case Nil
    with True show ?thesis
      by (simp add: rmatch_lits_eq startsWith_append_iff)
  next
    case (Cons y ys)
    then have "drop (Suc (length b)) s = ys"
      by (metis drop_Suc list.sel(3) tl_drop)
    with True Cons show ?thesis
      by (auto simp: rmatch_lits_eq startsWith_append_iff colon_def)
  qed
qed

lemma lookahead_eval:
  assumes "b \<noteq> []" and "\<not> is_space (hd b)"
  shows "rmatch (StarG Space # map Chr b @ [Cls colon]) u g c
         = rmatch (map Chr b @ [Cls colon]) (dropWhile is_space u) g c"
proof -
  have sp: "in_class Space = is_space"
    by (rule ext) simp
  have "rmatch (map Chr b @ [Cls colon]) s' g c = None"
    if "s' \<noteq> []" and "in_class Space (hd s')" for s'
  proof -
    from that assms have "\<not> startsWith s' b"
      by (cases s'; cases b) auto
    then show ?thesis by (rule rmatch_lits_none)
  qed
  from rmatch_StarG_skip [where k = Space and r = "map Chr b @ [Cls colon]", OF this]
  show ?thesis by (simp add: sp)
qed

lemma anchored_none:
  assumes "\<not> startsWith u (a @ [65306])" and "\<not> startsWith u (a @ [58])"
  shows "rmatch (map Chr a @ Cls colon # r) u g c = None"
proof (cases "rmatch (map Chr a @ Cls colon # r) u g c")
  case None
  then show ?thesis .
next
  case (Some res)
  from anchored_match [OF this] assms show ?thesis by blast
qed

lemma no_start_before_space:
  assumes "\<forall>x\<in>set p. \<not> is_space x" and "\<not> str_includes pre p" and "i \<le> length pre"
  shows "\<not> startsWith (drop i (pre @ 10 # u)) p"
proof
  assume "startsWith (drop i (pre @ 10 # u)) p"
  with assms(3) have "startsWith (drop i pre @ 10 # u) p" by simp
  then have "startsWith (drop i pre) p"
    using assms(1) by (rule startsWith_within) (simp add: is_space_def)
  then have "str_includes pre p" by (rule str_includes_drop)
  with assms(2) show False by simp
qed

lemma str_match_after_prefix:
  assumes "\<forall>i<length pre. rmatch re (drop i (pre @ u)) [] None = None"
    and "u \<noteq> []" and "rmatch re u [] None = Some (rest, cap)"
  shows "\<exists>whole. str_match re (pre @ u) = Some (whole, cap)"
proof -
  have "length pre < length (pre @ u)" using assms(2) by simp
  moreover have "rmatch re (drop (length pre) (pre @ u)) [] None = Some (rest, cap)"
    using assms(3) by simp
  ultimately show ?thesis
    using str_match_skip [OF assms(1)] by blast
qed

subsection \<open>The capture of a section that is followed by the next anchor\<close>

lemma space_facts: "is_space 10" "\<not> is_space 58" "\<not> is_space 65306"
  by (simp_all add: is_space_def)

lemma startsWith_self: "startsWith (a @ x) a"
  by (induction a) auto

lemma rmatch_lits_self: "rmatch (map Chr a @ r) (a @ x) g c = rmatch r x g c"
  using rmatch_lits_eq [OF startsWith_self, of a r x g c] by simp

lemma section_capture:
  assumes b: "b \<noteq> []" "\<forall>x\<in>set b. \<not> is_space x"
    and a: "trim a \<noteq> []" and na: "\<not> has_anchor b a"
    and P: "startsWith P (b @ [58])"
  shows "\<exists>rest. rmatch (map Chr a0 @ [Cls colon, StarG Space, GrpOpen, StarL AnyChar, GrpClose,
                     Look (StarG Space # map Chr b @ [Cls colon])])
                  (a0 @ 58 # a @ 10 # P) [] None
                = Some (rest, Some (trim a))"
proof -
  let ?la = "StarG Space # map Chr b @ [Cls colon]"
  let ?r = "[GrpClose, Look ?la]"
  from trim_decompose [OF a] obtain w1 w2
    where dec: "a = w1 @ trim a @ w2" and w1: "\<forall>x\<in>set w1. is_space x"
      and w2: "\<forall>x\<in>set w2. is_space x" and hc: "\<not> is_space (hd (trim a))"
      and lc: "\<not> is_space (last (trim a))"
    by blast
  define core where "core = trim a"
  define tl where "tl = w2 @ 10 # P"
  define s where "s = core @ tl"
  have core: "core \<noteq> []" "\<not> is_space (hd core)" "\<not> is_space (last core)"
    using a hc lc by (simp_all add: core_def)
  have hb: "\<not> is_space (hd b)" using b by (cases b) auto
  from P b(1) have Pne: "P \<noteq> []" and hP: "hd P = hd b"
    by (cases P; cases b; auto)+
  have tl_sp: "tl \<noteq> [] \<and> is_space (hd tl)"
    using w2 by (cases w2) (auto simp: tl_def space_facts)
  have dw_tl: "dropWhile is_space tl = P"
  proof -
    have "\<forall>x\<in>set (w2 @ [10]). is_space x" using w2 by (auto simp: space_facts)
    from dropWhile_spaces [OF this, of P] Pne hP hb show ?thesis
      by (simp add: tl_def)
  qed
  have look_tl: "rmatch ?la tl g' c' = Some (drop (Suc (length b)) P, c')" for g' c'
    using P by (simp add: lookahead_eval [OF b(1) hb] dw_tl anchor_colon_match)
  have look_fail: "rmatch ?la (drop i s) g' c' = None" if i: "i < length core" for i g' c'
  proof -
    define z where "z = drop i core"
    have z: "z \<noteq> []" "last z = last core"
      using i by (simp_all add: z_def)
    then have "last z \<in> set z" "\<not> is_space (last z)"
      using core(3) last_in_set [of z] by simp_all
    then have dw: "dropWhile is_space (z @ tl) = dropWhile is_space z @ tl"
      by (meson dropWhile_append1)
    have suf: "suffix (dropWhile is_space z) core"
      unfolding z_def by (meson suffix_drop suffix_dropWhile suffix_order.trans)
    have no: "\<not> startsWith (dropWhile is_space (drop i s)) (b @ [col])"
      if col: "col = 65306 \<or> col = 58" for col
    proof
      assume "startsWith (dropWhile is_space (drop i s)) (b @ [col])"
      then have 1: "startsWith (dropWhile is_space z @ tl) (b @ [col])"
        using i dw by (simp add: s_def z_def)
      have 2: "\<forall>x\<in>set (b @ [col]). \<not> is_space x"
        using b(2) col by (auto simp: space_facts)
      have 3: "tl = [] \<or> is_space (hd tl)"
        using tl_sp by simp
      from 1 2 3 have "startsWith (dropWhile is_space z) (b @ [col])"
        by (rule startsWith_within)
      with suf have "str_includes core (b @ [col])"
        by (rule suffix_startsWith_includes)
      then have "str_includes (w1 @ core @ w2) (b @ [col])"
        by (intro str_includes_append_left str_includes_append_right)
      with dec col have "has_anchor b a"
        by (auto simp: has_anchor_def core_def)
      with na show False by simp
    qed
    show ?thesis
      using no by (simp add: lookahead_eval [OF b(1) hb] anchor_colon_match)
  qed
  have r_fail: "\<forall>i<length core. rmatch ?r (drop i s) s None = None"
    using look_fail by simp
  have tk: "take (length s - length tl) s = core"
    by (simp add: s_def)
  have r_tl: "rmatch ?r tl s None = Some (tl, Some core)"
    using look_tl tk by simp
  have "rmatch (StarL AnyChar # ?r) s s None = rmatch (StarL AnyChar # ?r) (drop (length core) s) s None"
    using r_fail by (rule rmatch_StarL_skip) (simp add: s_def)
  also have "drop (length core) s = tl"
    by (simp add: s_def)
  also have "rmatch (StarL AnyChar # ?r) tl s None = Some (tl, Some core)"
    using r_tl by (rule rmatch_StarL_first)
  finally have lazy: "rmatch [GrpOpen, StarL AnyChar, GrpClose, Look ?la] s [] None
                        = Some (tl, Some core)"
    by simp
  have hs: "s = [] \<or> \<not> in_class Space (hd s)"
    using core by (simp add: s_def)
  have "\<forall>x\<in>set w1. in_class Space x" using w1 by simp
  from rmatch_StarG_greedy [OF this hs lazy]
  have greedy: "rmatch [StarG Space, GrpOpen, StarL AnyChar, GrpClose, Look ?la] (w1 @ s) [] None
                  = Some (tl, Some core)" .
  have eq: "a @ 10 # P = w1 @ s"
    using dec by (simp add: s_def tl_def core_def)
  have "rmatch (map Chr a0 @ [Cls colon, StarG Space, GrpOpen, StarL AnyChar, GrpClose, Look ?la])
          (a0 @ 58 # a @ 10 # P) [] None
        = rmatch [Cls colon, StarG Space, GrpOpen, StarL AnyChar, GrpClose, Look ?la]
            (58 # a @ 10 # P) [] None"
    by (rule rmatch_lits_self)
  also have "\<dots> = rmatch [StarG Space, GrpOpen, StarL AnyChar, GrpClose, Look ?la]
                     (a @ 10 # P) [] None"
    by (simp add: colon_def)
  also have "\<dots> = Some (tl, Some core)"
    using greedy by (simp only: eq)
  finally show ?thesis
    by (auto simp: core_def)
qed

subsection \<open>The capture of the last section\<close>

lemma last_capture:
  assumes "col = 65306 \<or> col = 58"
  shows "rmatch (map Chr a0 @ [Cls colon, StarG Space, GrpOpen, StarL AnyChar, GrpClose, Eos])
           (a0 @ col # c) [] None
         = Some ([], Some (dropWhile is_space c))"
proof -
  let ?r = "[GrpClose, Eos]"
  define s where "s = dropWhile is_space c"
  have "\<forall>i<length s. rmatch ?r (drop i s) s None = None"
    by simp
  then have "rmatch (StarL AnyChar # ?r) s s None
             = rmatch (StarL AnyChar # ?r) (drop (length s) s) s None"
    by (rule rmatch_StarL_skip) simp
  then have lazy: "rmatch [GrpOpen, StarL AnyChar, GrpClose, Eos] s [] None = Some ([], Some s)"
    by simp
  have hs: "s = [] \<or> \<not> in_class Space (hd s)"
    using hd_dropWhile [of is_space c] by (auto simp: s_def)
  have "\<forall>x\<in>set (takeWhile is_space c). in_class Space x"
    by (auto dest: set_takeWhileD)
  from rmatch_StarG_greedy [OF this hs lazy]
  have "rmatch [StarG Space, GrpOpen, StarL AnyChar, GrpClose, Eos] c [] None = Some ([], Some s)"
    by (simp add: s_def)
  then have "rmatch [Cls colon, StarG Space, GrpOpen, StarL AnyChar, GrpClose, Eos] (col # c) [] None
             = Some ([], Some s)"
    using assms by (auto simp: colon_def)
  then show ?thesis
    by (simp only: rmatch_lits_self s_def)
qed

subsection \<open>No anchor starts before its own place\<close>

lemma anchor_spaces:
  "\<forall>x\<in>set anchor_plan. \<not> is_space x" "\<forall>x\<in>set anchor_highlights. \<not> is_space x"
  "anchor_plan \<noteq> []" "anchor_highlights \<noteq> []" "anchor_title \<noteq> []"
  by (simp_all add: anchor_plan_def anchor_highlights_def anchor_title_def is_space_def)

lemma anchor_colon_spaces:
  assumes "col = 65306 \<or> col = 58"
  shows "\<forall>x\<in>set (anchor_plan @ [col]). \<not> is_space x"
    and "\<forall>x\<in>set (anchor_highlights @ [col]). \<not> is_space x"
  using assms anchor_spaces(1,2) space_facts by auto

lemma plan_not_in_title_part:
  assumes "\<not> str_includes a (anchor_plan @ [col])"
  shows "\<not> str_includes (anchor_title @ 58 # a) (anchor_plan @ [col])"
  using assms by (simp add: anchor_title_def anchor_plan_def)

lemma highlights_not_in_title_part:
  assumes "\<not> str_includes a (anchor_highlights @ [col])"
  shows "\<not> str_includes (anchor_title @ 58 # a) (anchor_highlights @ [col])"
  using assms by (simp add: anchor_title_def anchor_highlights_def)

lemma highlights_not_in_plan_part:
  assumes "\<not> str_includes b (anchor_highlights @ [col])"
  shows "\<not> str_includes (anchor_plan @ 58 # b) (anchor_highlights @ [col])"
  using assms by (simp add: anchor_plan_def anchor_highlights_def)

subsection \<open>The three sections of a separated text\<close>

lemma section_of_capture:
  assumes "str_match re t = Some (whole, Some cap)"
  shows "section_of re t = (if cap = [] then [] else trim cap)"
  using assms by (simp add: section_of_def)

lemma title_of_separated:
  assumes "trim a \<noteq> []" and "\<not> has_anchor anchor_plan a"
  shows "section_of titleRegex (separated_text a b c) = trim a"
proof -
  let ?P = "anchor_plan @ 58 # b @ 10 # anchor_highlights @ 58 # c"
  have "startsWith ((anchor_plan @ [58]) @ b @ 10 # anchor_highlights @ 58 # c) (anchor_plan @ [58])"
    by (rule startsWith_self)
  then have P: "startsWith ?P (anchor_plan @ [58])" by simp
  from section_capture [OF anchor_spaces(3) anchor_spaces(1) assms P, of anchor_title]
  obtain rest where m: "rmatch titleRegex (separated_text a b c) [] None = Some (rest, Some (trim a))"
    by (auto simp: titleRegex_def separated_text_def)
  have "\<exists>whole. str_match titleRegex ([] @ separated_text a b c) = Some (whole, Some (trim a))"
    using m by (intro str_match_after_prefix) (simp_all add: separated_text_def anchor_title_def)
  then obtain whole where "str_match titleRegex (separated_text a b c) = Some (whole, Some (trim a))"
    by auto
  from section_of_capture [OF this] assms(1) have "section_of titleRegex (separated_text a b c)
      = trim (trim a)"
    by simp
  moreover from trim_decompose [OF assms(1)] have "trim (trim a) = trim a"
    using assms(1) by (intro trim_fixed) auto
  ultimately show ?thesis by simp
qed

lemma plan_of_separated:
  assumes "trim b \<noteq> []" and "\<not> has_anchor anchor_plan a" and "\<not> has_anchor anchor_highlights b"
  shows "section_of planRegex (separated_text a b c) = trim b"
proof -
  let ?Q = "anchor_highlights @ 58 # c"
  let ?u = "anchor_plan @ 58 # b @ 10 # ?Q"
  let ?pre' = "anchor_title @ 58 # a"
  have "startsWith ((anchor_highlights @ [58]) @ c) (anchor_highlights @ [58])"
    by (rule startsWith_self)
  then have Q: "startsWith ?Q (anchor_highlights @ [58])" by simp
  from section_capture [OF anchor_spaces(4) anchor_spaces(2) assms(1,3) Q, of anchor_plan]
  obtain rest where m: "rmatch planRegex ?u [] None = Some (rest, Some (trim b))"
    by (auto simp: planRegex_def)
  have none: "\<forall>i<length (?pre' @ [10]). rmatch planRegex (drop i ((?pre' @ [10]) @ ?u)) [] None = None"
  proof (intro allI impI)
    fix i assume "i < length (?pre' @ [10])"
    then have i: "i \<le> length ?pre'" by simp
    have "\<not> startsWith (drop i (?pre' @ 10 # ?u)) (anchor_plan @ [col])"
      if col: "col = 65306 \<or> col = 58" for col
    proof -
      from assms(2) col have "\<not> str_includes a (anchor_plan @ [col])"
        by (auto simp: has_anchor_def)
      then have "\<not> str_includes ?pre' (anchor_plan @ [col])"
        by (rule plan_not_in_title_part)
      with anchor_colon_spaces(1) [OF col] show ?thesis
        using i by (rule no_start_before_space)
    qed
    then have "\<not> startsWith (drop i ((?pre' @ [10]) @ ?u)) (anchor_plan @ [65306])"
      "\<not> startsWith (drop i ((?pre' @ [10]) @ ?u)) (anchor_plan @ [58])"
      by simp_all
    then show "rmatch planRegex (drop i ((?pre' @ [10]) @ ?u)) [] None = None"
      unfolding planRegex_def by (rule anchored_none)
  qed
  have "?u \<noteq> []" by (simp add: anchor_plan_def)
  from str_match_after_prefix [OF none this m]
  obtain whole where "str_match planRegex ((?pre' @ [10]) @ ?u) = Some (whole, Some (trim b))"
    by blast
  then have "str_match planRegex (separated_text a b c) = Some (whole, Some (trim b))"
    by (simp add: separated_text_def)
  from section_of_capture [OF this] assms(1) have "section_of planRegex (separated_text a b c)
      = trim (trim b)"
    by simp
  moreover from trim_decompose [OF assms(1)] have "trim (trim b) = trim b"
    using assms(1) by (intro trim_fixed) auto
  ultimately show ?thesis by simp
qed

lemma highlights_of_separated:
  assumes "\<not> has_anchor anchor_highlights a" and "\<not> has_anchor anchor_highlights b"
  shows "section_of highlightsRegex (separated_text a b c) = trim c"
proof -
  let ?u = "anchor_highlights @ 58 # c"
  let ?pre' = "(anchor_title @ 58 # a) @ 10 # (anchor_plan @ 58 # b)"
  have m: "rmatch highlightsRegex ?u [] None = Some ([], Some (dropWhile is_space c))"
    unfolding highlightsRegex_def by (rule last_capture) simp
  have none: "\<forall>i<length (?pre' @ [10]).
                 rmatch highlightsRegex (drop i ((?pre' @ [10]) @ ?u)) [] None = None"
  proof (intro allI impI)
    fix i assume "i < length (?pre' @ [10])"
    then have i: "i \<le> length ?pre'" by simp
    have "\<not> startsWith (drop i (?pre' @ 10 # ?u)) (anchor_highlights @ [col])"
      if col: "col = 65306 \<or> col = 58" for col
    proof -
      from assms col have "\<not> str_includes a (anchor_highlights @ [col])"
        "\<not> str_includes b (anchor_highlights @ [col])"
        by (auto simp: has_anchor_def)
      then have "\<not> str_includes (anchor_title @ 58 # a) (anchor_highlights @ [col])"
        "\<not> str_includes (anchor_plan @ 58 # b) (anchor_highlights @ [col])"
        by (simp_all add: highlights_not_in_title_part highlights_not_in_plan_part)
      then have "\<not> str_includes ?pre' (anchor_highlights @ [col])"
        using str_includes_space [OF anchor_colon_spaces(2) [OF col] _ space_facts(1),
            of "anchor_title @ 58 # a" "anchor_plan @ 58 # b"]
        by simp
      with anchor_colon_spaces(2) [OF col] show ?thesis
        using i by (rule no_start_before_space)
    qed
    then have "\<not> startsWith (drop i ((?pre' @ [10]) @ ?u)) (anchor_highlights @ [65306])"
      "\<not> startsWith (drop i ((?pre' @ [10]) @ ?u)) (anchor_highlights @ [58])"
      by simp_all
    then show "rmatch highlightsRegex (drop i ((?pre' @ [10]) @ ?u)) [] None = None"
      unfolding highlightsRegex_def by (rule anchored_none)
  qed
  have "?u \<noteq> []" by (simp add: anchor_highlights_def)
  from str_match_after_prefix [OF none this m]
  obtain whole
    where "str_match highlightsRegex ((?pre' @ [10]) @ ?u) = Some (whole, Some (dropWhile is_space c))"
    by blast
  then have "str_match highlightsRegex (separated_text a b c)
               = Some (whole, Some (dropWhile is_space c))"
    by (simp add: separated_text_def)
  from section_of_capture [OF this]
  have "section_of highlightsRegex (separated_text a b c)
          = (if dropWhile is_space c = [] then [] else trim (dropWhile is_space c))" .
  moreover have "trim c = []" if "dropWhile is_space c = []"
    unfolding trim_def that by simp
  ultimately show ?thesis
    by (simp add: trim_dropWhile)
qed

lemma has_anchor_trim:
  assumes "\<not> has_anchor x a"
  shows "\<not> has_anchor x (trim a)"
proof (cases "trim a = []")
  case True
  then show ?thesis by (simp add: has_anchor_def)
next
  case False
  from trim_decompose [OF False] obtain w1 w2 where "a = w1 @ trim a @ w2" by blast
  then have "str_includes a p" if "str_includes (trim a) p" for p
    using that str_includes_append_left [of "trim a @ w2" p w1]
      str_includes_append_right [of "trim a" p w2] by simp
  with assms show ?thesis by (auto simp: has_anchor_def)
qed

lemma trim_trim: "trim (trim a) = trim a"
proof (cases "trim a = []")
  case True
  have "trim [] = []" by (simp add: trim_def)
  with True show ?thesis by simp
next
  case False
  from trim_decompose [OF False] show ?thesis
    using False by (intro trim_fixed) auto
qed

lemma split_separated:
  assumes "trim a \<noteq> []" and "trim b \<noteq> []" and "\<not> has_anchor anchor_plan a"
    and "\<not> has_anchor anchor_highlights a" and "\<not> has_anchor anchor_highlights b"
  shows "split_sections (separated_text a b c) = (trim a, trim b, trim c)"
  using assms
  by (simp add: split_sections_def title_of_separated plan_of_separated highlights_of_separated)

text \<open>
  C7. The text made of the three anchors, each with a half-width colon, followed by
  \<open>A\<close>, \<open>B\<close> and \<open>C\<close> and separated by line feeds, is split into exactly the title
  \<open>A\<close>, the plan \<open>B\<close> and the highlights \<open>C\<close>. More generally, for sections \<open>a\<close>, \<open>b\<close>
  and \<open>c\<close> in that format, where \<open>a\<close> and \<open>b\<close> are not blank, \<open>a\<close> holds neither the plan
  anchor nor the highlights anchor and \<open>b\<close> does not hold the highlights anchor, the
  splitter returns the three sections trimmed; and putting its result into the format
  again and splitting once more returns the same result.
\<close>

theorem split_separated_text:
  "split_sections (separated_text (ascii ''A'') (ascii ''B'') (ascii ''C''))
     = (ascii ''A'', ascii ''B'', ascii ''C'')
   \<and> (trim a \<noteq> [] \<and> trim b \<noteq> [] \<and> \<not> has_anchor anchor_plan a
        \<and> \<not> has_anchor anchor_highlights a \<and> \<not> has_anchor anchor_highlights b \<longrightarrow>
        split_sections (separated_text a b c) = (trim a, trim b, trim c)
        \<and> split_sections (separated_text (trim a) (trim b) (trim c)) = (trim a, trim b, trim c))"
proof -
  let ?t = "separated_text (ascii ''A'') (ascii ''B'') (ascii ''C'')"
  have s: "split_sections ?t = (ascii ''A'', ascii ''B'', ascii ''C'')"
    by code_simp
  have g: "trim a \<noteq> [] \<and> trim b \<noteq> [] \<and> \<not> has_anchor anchor_plan a
        \<and> \<not> has_anchor anchor_highlights a \<and> \<not> has_anchor anchor_highlights b \<longrightarrow>
        split_sections (separated_text a b c) = (trim a, trim b, trim c)
        \<and> split_sections (separated_text (trim a) (trim b) (trim c)) = (trim a, trim b, trim c)"
  proof
    assume h: "trim a \<noteq> [] \<and> trim b \<noteq> [] \<and> \<not> has_anchor anchor_plan a
        \<and> \<not> has_anchor anchor_highlights a \<and> \<not> has_anchor anchor_highlights b"
    then have 1: "split_sections (separated_text a b c) = (trim a, trim b, trim c)"
      by (simp add: split_separated)
    from h have "trim (trim a) \<noteq> []" "trim (trim b) \<noteq> []"
      "\<not> has_anchor anchor_plan (trim a)" "\<not> has_anchor anchor_highlights (trim a)"
      "\<not> has_anchor anchor_highlights (trim b)"
      by (simp_all add: trim_trim has_anchor_trim)
    from split_separated [OF this, of "trim c"]
    have 2: "split_sections (separated_text (trim a) (trim b) (trim c)) = (trim a, trim b, trim c)"
      by (simp add: trim_trim)
    from 1 2 show "split_sections (separated_text a b c) = (trim a, trim b, trim c)
        \<and> split_sections (separated_text (trim a) (trim b) (trim c)) = (trim a, trim b, trim c)"
      by blast
  qed
  from s g show ?thesis
    by blast
qed

theorem split_separated_text_witness:
  "split_sections (separated_text (ascii '' A '') (ascii ''B  '') (ascii ''  C''))
     = (ascii ''A'', ascii ''B'', ascii ''C'')
   \<and> split_sections (separated_text (ascii ''A'') (ascii ''B'') (ascii ''C''))
       = (ascii ''A'', ascii ''B'', ascii ''C'')"
proof -
  have t: "trim (ascii '' A '') = ascii ''A''" "trim (ascii ''B  '') = ascii ''B''"
    "trim (ascii ''  C'') = ascii ''C''"
    by code_simp+
  have n: "ascii ''A'' \<noteq> []" "ascii ''B'' \<noteq> []"
    by (simp_all add: ascii_def)
  have h: "\<not> has_anchor anchor_plan (ascii '' A '')"
    "\<not> has_anchor anchor_highlights (ascii '' A '')"
    "\<not> has_anchor anchor_highlights (ascii ''B  '')"
    by code_simp+
  from split_separated_text [where a = "ascii '' A ''" and b = "ascii ''B  ''"
      and c = "ascii ''  C''"] t n h
  show ?thesis by simp
qed

section \<open>The splitter on a text with some of the anchors\<close>

subsection \<open>The first occurrence of an anchor\<close>

lemma startsWith_take:
  "startsWith (u @ v) p \<Longrightarrow> length p \<le> length u \<Longrightarrow> startsWith u p"
proof (induction u arbitrary: p)
  case Nil
  then show ?case by (cases p) auto
next
  case (Cons x u)
  then show ?case by (cases p) auto
qed

text \<open>
  When \<open>pre @ a\<close> holds no anchor \<open>a\<close> with a colon, no such anchor starts inside \<open>pre\<close>
  in a text that goes on after \<open>pre @ a\<close>: the anchor that ends \<open>pre @ a\<close> is the first.
\<close>

lemma no_anchor_before:
  assumes "\<not> has_anchor a (pre @ a)" and "i < length pre" and "col = 65306 \<or> col = 58"
  shows "\<not> startsWith (drop i (pre @ a @ x)) (a @ [col])"
proof
  assume "startsWith (drop i (pre @ a @ x)) (a @ [col])"
  with assms(2) have "startsWith ((drop i pre @ a) @ x) (a @ [col])" by simp
  moreover have "length (a @ [col]) \<le> length (drop i pre @ a)"
    using assms(2) by simp
  ultimately have "startsWith (drop i pre @ a) (a @ [col])"
    by (rule startsWith_take)
  with assms(2) have "startsWith (drop i (pre @ a)) (a @ [col])" by simp
  then have "str_includes (pre @ a) (a @ [col])" by (rule str_includes_drop)
  with assms(1,3) show False by (auto simp: has_anchor_def)
qed

lemma trim_empty_spaces:
  assumes "trim a = []"
  shows "\<forall>x\<in>set a. is_space x"
proof -
  define d where "d = dropWhile is_space a"
  from assms have "dropWhile is_space (rev d) = []"
    by (simp add: trim_def d_def)
  then have all: "\<forall>x\<in>set d. is_space x"
    by (simp add: dropWhile_eq_Nil_conv)
  have "d = []"
  proof (rule ccontr)
    assume "d \<noteq> []"
    then have "\<not> is_space (hd d)"
      unfolding d_def by (rule hd_dropWhile)
    moreover from \<open>d \<noteq> []\<close> have "hd d \<in> set d" by simp
    ultimately show False using all by blast
  qed
  then show ?thesis
    by (simp add: d_def dropWhile_eq_Nil_conv)
qed

subsection \<open>The capture of a section up to the next anchor\<close>

lemma section_capture_gen:
  assumes b: "b \<noteq> []" "\<forall>x\<in>set b. \<not> is_space x"
    and nb: "\<not> has_anchor b (mid @ b)"
    and c1: "c1 = 65306 \<or> c1 = 58" and c2: "c2 = 65306 \<or> c2 = 58"
  shows "\<exists>rest. rmatch (map Chr a0 @ [Cls colon, StarG Space, GrpOpen, StarL AnyChar, GrpClose,
                     Look (StarG Space # map Chr b @ [Cls colon])])
                  (a0 @ c1 # mid @ b @ c2 # x) [] None
                = Some (rest, Some (trim mid))"
proof -
  let ?la = "StarG Space # map Chr b @ [Cls colon]"
  let ?r = "[GrpClose, Look ?la]"
  define P where "P = b @ c2 # x"
  have hb: "\<not> is_space (hd b)" using b by (cases b) auto
  have "startsWith ((b @ [c2]) @ x) (b @ [c2])"
    by (rule startsWith_self)
  then have P: "startsWith P (b @ [c2])" by (simp add: P_def)
  have Pne: "P \<noteq> []" and hP: "hd P = hd b"
    using b(1) by (cases b; simp add: P_def)+
  have look_P: "rmatch ?la (w @ P) g' c' = Some (drop (Suc (length b)) P, c')"
    if w: "\<forall>x\<in>set w. is_space x" for w g' c'
  proof -
    have "dropWhile is_space (w @ P) = P"
      using w Pne hP hb by (intro dropWhile_spaces) auto
    with P c2 show ?thesis
      by (auto simp: lookahead_eval [OF b(1) hb] anchor_colon_match)
  qed
  have hPs: "P = [] \<or> \<not> in_class Space (hd P)"
    using hP hb by simp
  have found: "\<exists>rest. rmatch [StarG Space, GrpOpen, StarL AnyChar, GrpClose, Look ?la]
                          (mid @ P) [] None
                        = Some (rest, Some (trim mid))"
  proof (cases "trim mid = []")
    case True
    then have sp: "\<forall>x\<in>set mid. is_space x" by (rule trim_empty_spaces)
    have "rmatch ?r P P None = Some (P, Some [])"
      using look_P [of "[]"] by simp
    then have "rmatch (StarL AnyChar # ?r) P P None = Some (P, Some [])"
      by (rule rmatch_StarL_first)
    then have lazy: "rmatch [GrpOpen, StarL AnyChar, GrpClose, Look ?la] P [] None
                       = Some (P, Some [])"
      by simp
    have "\<forall>x\<in>set mid. in_class Space x" using sp by simp
    from rmatch_StarG_greedy [OF this hPs lazy] True show ?thesis
      by simp
  next
    case False
    from trim_decompose [OF False] obtain w1 w2
      where dec: "mid = w1 @ trim mid @ w2" and w1: "\<forall>x\<in>set w1. is_space x"
        and w2: "\<forall>x\<in>set w2. is_space x" and hc: "\<not> is_space (hd (trim mid))"
        and lc: "\<not> is_space (last (trim mid))"
      by blast
    define core where "core = trim mid"
    define tl where "tl = w2 @ P"
    define s where "s = core @ tl"
    have core: "core \<noteq> []" "\<not> is_space (hd core)" "\<not> is_space (last core)"
      using False hc lc by (simp_all add: core_def)
    have mid: "mid = w1 @ core @ w2"
      using dec by (simp add: core_def)
    have look_fail: "rmatch ?la (drop i s) g' c' = None" if i: "i < length core" for i g' c'
    proof -
      define z where "z = drop i core"
      have z: "z \<noteq> []" "last z = last core"
        using i by (simp_all add: z_def)
      then have lz: "last z \<in> set z" "\<not> is_space (last z)"
        using core(3) last_in_set [of z] by simp_all
      then have dw: "dropWhile is_space (z @ tl) = dropWhile is_space z @ tl"
        by (meson dropWhile_append1)
      define z' where "z' = dropWhile is_space z"
      have z'ne: "z' \<noteq> []"
        using lz by (auto simp: z'_def dropWhile_eq_Nil_conv)
      have "suffix z' core"
        unfolding z'_def z_def by (meson suffix_drop suffix_dropWhile suffix_order.trans)
      then obtain y where y: "core = y @ z'"
        by (auto simp: suffix_def)
      have suf: "suffix (z' @ w2 @ b) (mid @ b)"
        unfolding suffix_def using mid y by (intro exI [of _ "w1 @ y"]) simp
      have no: "\<not> startsWith (dropWhile is_space (drop i s)) (b @ [col])"
        if col: "col = 65306 \<or> col = 58" for col
      proof
        assume "startsWith (dropWhile is_space (drop i s)) (b @ [col])"
        then have "startsWith ((z' @ w2 @ b) @ c2 # x) (b @ [col])"
          using i dw by (simp add: s_def z_def z'_def tl_def P_def)
        moreover have "length (b @ [col]) \<le> length (z' @ w2 @ b)"
          using z'ne by (cases z') simp_all
        ultimately have "startsWith (z' @ w2 @ b) (b @ [col])"
          by (rule startsWith_take)
        with suf have "str_includes (mid @ b) (b @ [col])"
          by (rule suffix_startsWith_includes)
        with col have "has_anchor b (mid @ b)"
          by (auto simp: has_anchor_def)
        with nb show False by simp
      qed
      show ?thesis
        using no by (simp add: lookahead_eval [OF b(1) hb] anchor_colon_match)
    qed
    have r_fail: "\<forall>i<length core. rmatch ?r (drop i s) s None = None"
      using look_fail by simp
    have tk: "take (length s - length tl) s = core"
      by (simp add: s_def)
    have "rmatch ?la tl g' c' = Some (drop (Suc (length b)) P, c')" for g' c'
      unfolding tl_def using w2 by (rule look_P)
    then have r_tl: "rmatch ?r tl s None = Some (tl, Some core)"
      using tk by simp
    have "rmatch (StarL AnyChar # ?r) s s None
            = rmatch (StarL AnyChar # ?r) (drop (length core) s) s None"
      using r_fail by (rule rmatch_StarL_skip) (simp add: s_def)
    also have "drop (length core) s = tl"
      by (simp add: s_def)
    also have "rmatch (StarL AnyChar # ?r) tl s None = Some (tl, Some core)"
      using r_tl by (rule rmatch_StarL_first)
    finally have lazy: "rmatch [GrpOpen, StarL AnyChar, GrpClose, Look ?la] s [] None
                          = Some (tl, Some core)"
      by simp
    have hs: "s = [] \<or> \<not> in_class Space (hd s)"
      using core by (simp add: s_def)
    have "\<forall>x\<in>set w1. in_class Space x" using w1 by simp
    from rmatch_StarG_greedy [OF this hs lazy]
    have greedy: "rmatch [StarG Space, GrpOpen, StarL AnyChar, GrpClose, Look ?la] (w1 @ s) [] None
                    = Some (tl, Some core)" .
    have eq: "mid @ P = w1 @ s"
      using mid by (simp add: s_def tl_def)
    from greedy show ?thesis
      by (simp add: eq core_def)
  qed
  have "rmatch (map Chr a0 @ [Cls colon, StarG Space, GrpOpen, StarL AnyChar, GrpClose, Look ?la])
          (a0 @ c1 # mid @ b @ c2 # x) [] None
        = rmatch [Cls colon, StarG Space, GrpOpen, StarL AnyChar, GrpClose, Look ?la]
            (c1 # mid @ b @ c2 # x) [] None"
    by (rule rmatch_lits_self)
  also have "\<dots> = rmatch [StarG Space, GrpOpen, StarL AnyChar, GrpClose, Look ?la]
                     (mid @ P) [] None"
    using c1 by (auto simp: colon_def P_def)
  finally show ?thesis
    using found by simp
qed

text \<open>
  The section between the first anchor \<open>a0\<close> and the first anchor \<open>b\<close> after it is the
  trimmed text between the two.
\<close>

lemma section_found:
  assumes b: "b \<noteq> []" "\<forall>x\<in>set b. \<not> is_space x"
    and na: "\<not> has_anchor a0 (pre @ a0)" and nb: "\<not> has_anchor b (mid @ b)"
    and c1: "c1 = 65306 \<or> c1 = 58" and c2: "c2 = 65306 \<or> c2 = 58"
  shows "section_of (map Chr a0 @ [Cls colon, StarG Space, GrpOpen, StarL AnyChar, GrpClose,
                       Look (StarG Space # map Chr b @ [Cls colon])])
           (pre @ a0 @ c1 # mid @ b @ c2 # x) = trim mid"
proof -
  let ?re = "map Chr a0 @ [Cls colon, StarG Space, GrpOpen, StarL AnyChar, GrpClose,
                       Look (StarG Space # map Chr b @ [Cls colon])]"
  let ?u = "a0 @ c1 # mid @ b @ c2 # x"
  from section_capture_gen [OF b nb c1 c2, of a0 x]
  obtain rest where m: "rmatch ?re ?u [] None = Some (rest, Some (trim mid))"
    by blast
  have none: "\<forall>i<length pre. rmatch ?re (drop i (pre @ ?u)) [] None = None"
  proof (intro allI impI)
    fix i assume i: "i < length pre"
    from no_anchor_before [OF na i, of 65306 "c1 # mid @ b @ c2 # x"]
      no_anchor_before [OF na i, of 58 "c1 # mid @ b @ c2 # x"]
    have "\<not> startsWith (drop i (pre @ ?u)) (a0 @ [65306])"
      "\<not> startsWith (drop i (pre @ ?u)) (a0 @ [58])"
      by simp_all
    then show "rmatch ?re (drop i (pre @ ?u)) [] None = None"
      by (rule anchored_none)
  qed
  have "?u \<noteq> []" by simp
  from str_match_after_prefix [OF none this m]
  obtain whole where "str_match ?re (pre @ ?u) = Some (whole, Some (trim mid))"
    by blast
  from section_of_capture [OF this] show ?thesis
    by (simp add: trim_trim)
qed

text \<open>
  When no anchor \<open>b\<close> follows the first anchor \<open>a0\<close>, the section between them is empty,
  whatever the text holds before.
\<close>

lemma section_not_found:
  assumes na: "\<not> has_anchor a0 (pre @ a0)" and nb: "\<not> has_anchor b after"
  shows "section_of (map Chr a0 @ [Cls colon, StarG Space, GrpOpen, StarL AnyChar, GrpClose,
                       Look (StarG Space # map Chr b @ [Cls colon])])
           (pre @ a0 @ c1 # after) = []"
proof -
  let ?tl = "[StarG Space, GrpOpen, StarL AnyChar, GrpClose,
               Look (StarG Space # map Chr b @ [Cls colon])]"
  let ?re = "map Chr a0 @ Cls colon # ?tl"
  let ?t = "pre @ a0 @ c1 # after"
  have "str_match ?re ?t = None"
  proof (rule ccontr)
    assume "str_match ?re ?t \<noteq> None"
    then obtain res where "str_match ?re ?t = Some res" by blast
    from str_match_suffix [OF this] obtain u r'
      where u: "suffix u ?t" "rmatch ?re u [] None = Some r'"
      by blast
    from anchored_match [OF u(2)]
    have st: "startsWith u (a0 @ [65306]) \<or> startsWith u (a0 @ [58])"
      and tl: "rmatch ?tl (drop (Suc (length a0)) u) [] None = Some r'"
      by blast+
    from lookahead_tail [OF tl] obtain z
      where z: "suffix z (drop (Suc (length a0)) u)"
        "startsWith z (b @ [65306]) \<or> startsWith z (b @ [58])"
      by blast
    from u(1) obtain w where w: "?t = w @ u"
      by (auto simp: suffix_def)
    then have ud: "u = drop (length w) ?t"
      by (metis append_eq_conv_conj)
    have le: "length pre \<le> length w"
    proof (rule ccontr)
      assume "\<not> length pre \<le> length w"
      then have i: "length w < length pre" by simp
      from no_anchor_before [OF na i, of 65306 "c1 # after"]
        no_anchor_before [OF na i, of 58 "c1 # after"] st ud
      show False by simp
    qed
    define w' where "w' = drop (length pre) w"
    have "drop (length pre) ?t = drop (length pre) (w @ u)"
      using w by simp
    then have "a0 @ c1 # after = w' @ u"
      using le by (simp add: w'_def)
    then have su: "suffix u ((a0 @ [c1]) @ after)"
      by (simp add: suffix_def)
    have "suffix z u"
      using z(1) by (meson suffix_drop suffix_order.trans)
    with su have sz: "suffix z ((a0 @ [c1]) @ after)"
      by (meson suffix_order.trans)
    have "length z \<le> length u - Suc (length a0)"
      using suffix_length_le [OF z(1)] by simp
    moreover have "length u \<le> length ((a0 @ [c1]) @ after)"
      using su by (rule suffix_length_le)
    ultimately have "length z \<le> length after" by simp
    with sz have "suffix z after"
      by (auto simp: suffix_append suffix_Cons)
    with z(2) have "str_includes after (b @ [65306]) \<or> str_includes after (b @ [58])"
      using suffix_startsWith_includes by blast
    with nb show False by (simp add: has_anchor_def)
  qed
  then show ?thesis by (simp add: section_of_def)
qed

text \<open>The last section is the trimmed text after its first anchor.\<close>

lemma last_found:
  assumes na: "\<not> has_anchor a0 (pre @ a0)" and c1: "c1 = 65306 \<or> c1 = 58"
  shows "section_of (map Chr a0 @ [Cls colon, StarG Space, GrpOpen, StarL AnyChar, GrpClose,
                       Eos])
           (pre @ a0 @ c1 # c) = trim c"
proof -
  let ?re = "map Chr a0 @ [Cls colon, StarG Space, GrpOpen, StarL AnyChar, GrpClose, Eos]"
  let ?u = "a0 @ c1 # c"
  have m: "rmatch ?re ?u [] None = Some ([], Some (dropWhile is_space c))"
    using c1 by (rule last_capture)
  have none: "\<forall>i<length pre. rmatch ?re (drop i (pre @ ?u)) [] None = None"
  proof (intro allI impI)
    fix i assume i: "i < length pre"
    from no_anchor_before [OF na i, of 65306 "c1 # c"]
      no_anchor_before [OF na i, of 58 "c1 # c"]
    have "\<not> startsWith (drop i (pre @ ?u)) (a0 @ [65306])"
      "\<not> startsWith (drop i (pre @ ?u)) (a0 @ [58])"
      by simp_all
    then show "rmatch ?re (drop i (pre @ ?u)) [] None = None"
      by (rule anchored_none)
  qed
  have "?u \<noteq> []" by simp
  from str_match_after_prefix [OF none this m]
  obtain whole where "str_match ?re (pre @ ?u) = Some (whole, Some (dropWhile is_space c))"
    by blast
  from section_of_capture [OF this]
  have "section_of ?re (pre @ ?u)
          = (if dropWhile is_space c = [] then [] else trim (dropWhile is_space c))" .
  moreover have "trim c = []" if "dropWhile is_space c = []"
    unfolding trim_def that by simp
  ultimately show ?thesis
    by (simp add: trim_dropWhile)
qed

subsection \<open>The claim about a text with some of the anchors\<close>

text \<open>
  C2, as stated, fails: in the text that consists of the title anchor, a colon and \<open>A\<close>
  one anchor occurs and two do not, yet the title is not filled from it: the splitter
  falls back, keeps the whole text as plan and sets the two fixed texts.
\<close>

theorem partial_anchor_counterexample:
  "has_anchor anchor_title (anchor_title @ ascii '':A'')
   \<and> \<not> has_anchor anchor_plan (anchor_title @ ascii '':A'')
   \<and> \<not> has_anchor anchor_highlights (anchor_title @ ascii '':A'')
   \<and> split_sections (anchor_title @ ascii '':A'')
       = (placeholder_title, anchor_title @ ascii '':A'', placeholder_highlights)
   \<and> split_sections (anchor_title @ ascii '':A'') = fallback_sections (anchor_title @ ascii '':A'')
   \<and> split_sections (anchor_title @ ascii '':A'') \<noteq> (ascii ''A'', [], [])"
  by code_simp

text \<open>
  C2, amended. Each section is extracted by its own expression. The title is the
  trimmed text between the first title anchor and the first plan anchor after it; it is
  empty when no plan anchor follows the first title anchor, and when there is no title
  anchor. The plan is, in the same way, the trimmed text between the first plan anchor
  and the first highlights anchor after it. The highlights are the trimmed text after
  the first highlights anchor, and empty without that anchor. (An anchor is the literal
  followed by a colon, full-width or half-width; that \<open>pre @ a\<close> holds no anchor \<open>a\<close>
  says that the \<open>a\<close> at its end is the first one of the text.) The fallback is applied
  exactly when the three extractions are all empty, and otherwise the sections are the
  three extractions, the unmatched ones empty. So a text with neither the plan anchor
  nor the highlights anchor always goes to the fallback, whether or not the title anchor
  occurs, and so does a text whose anchors enclose only white space.
\<close>

theorem partial_anchor_amended:
  "((ca = 65306 \<or> ca = 58) \<and> (cb = 65306 \<or> cb = 58)
      \<and> \<not> has_anchor anchor_title (pre @ anchor_title)
      \<and> \<not> has_anchor anchor_plan (mid @ anchor_plan) \<longrightarrow>
      section_of titleRegex (pre @ anchor_title @ ca # mid @ anchor_plan @ cb # rest)
        = trim mid)
   \<and> (\<not> has_anchor anchor_title (pre @ anchor_title) \<and> \<not> has_anchor anchor_plan rest \<longrightarrow>
        section_of titleRegex (pre @ anchor_title @ ca # rest) = [])
   \<and> (\<not> has_anchor anchor_title t \<longrightarrow> section_of titleRegex t = [])
   \<and> ((ca = 65306 \<or> ca = 58) \<and> (cb = 65306 \<or> cb = 58)
        \<and> \<not> has_anchor anchor_plan (pre @ anchor_plan)
        \<and> \<not> has_anchor anchor_highlights (mid @ anchor_highlights) \<longrightarrow>
        section_of planRegex (pre @ anchor_plan @ ca # mid @ anchor_highlights @ cb # rest)
          = trim mid)
   \<and> (\<not> has_anchor anchor_plan (pre @ anchor_plan) \<and> \<not> has_anchor anchor_highlights rest \<longrightarrow>
        section_of planRegex (pre @ anchor_plan @ ca # rest) = [])
   \<and> (\<not> has_anchor anchor_plan t \<longrightarrow> section_of planRegex t = [])
   \<and> ((ca = 65306 \<or> ca = 58) \<and> \<not> has_anchor anchor_highlights (pre @ anchor_highlights) \<longrightarrow>
        section_of highlightsRegex (pre @ anchor_highlights @ ca # rest) = trim rest)
   \<and> (\<not> has_anchor anchor_highlights t \<longrightarrow> section_of highlightsRegex t = [])
   \<and> split_sections t
       = (if section_of titleRegex t = [] \<and> section_of planRegex t = []
             \<and> section_of highlightsRegex t = []
          then fallback_sections t
          else (section_of titleRegex t, section_of planRegex t, section_of highlightsRegex t))
   \<and> (\<not> has_anchor anchor_plan t \<and> \<not> has_anchor anchor_highlights t \<longrightarrow>
        split_sections t = fallback_sections t)"
proof -
  have 1: "(ca = 65306 \<or> ca = 58) \<and> (cb = 65306 \<or> cb = 58)
      \<and> \<not> has_anchor anchor_title (pre @ anchor_title)
      \<and> \<not> has_anchor anchor_plan (mid @ anchor_plan) \<longrightarrow>
      section_of titleRegex (pre @ anchor_title @ ca # mid @ anchor_plan @ cb # rest)
        = trim mid"
    unfolding titleRegex_def
    using section_found [OF anchor_spaces(3) anchor_spaces(1), of anchor_title pre mid ca cb rest]
    by blast
  have 2: "\<not> has_anchor anchor_title (pre @ anchor_title) \<and> \<not> has_anchor anchor_plan rest \<longrightarrow>
        section_of titleRegex (pre @ anchor_title @ ca # rest) = []"
    unfolding titleRegex_def
    using section_not_found [of anchor_title pre anchor_plan rest ca]
    by blast
  have 3: "\<not> has_anchor anchor_title t \<longrightarrow> section_of titleRegex t = []"
    using section_of_title_empty by blast
  have 4: "(ca = 65306 \<or> ca = 58) \<and> (cb = 65306 \<or> cb = 58)
        \<and> \<not> has_anchor anchor_plan (pre @ anchor_plan)
        \<and> \<not> has_anchor anchor_highlights (mid @ anchor_highlights) \<longrightarrow>
        section_of planRegex (pre @ anchor_plan @ ca # mid @ anchor_highlights @ cb # rest)
          = trim mid"
    unfolding planRegex_def
    using section_found [OF anchor_spaces(4) anchor_spaces(2), of anchor_plan pre mid ca cb rest]
    by blast
  have 5: "\<not> has_anchor anchor_plan (pre @ anchor_plan) \<and> \<not> has_anchor anchor_highlights rest \<longrightarrow>
        section_of planRegex (pre @ anchor_plan @ ca # rest) = []"
    unfolding planRegex_def
    using section_not_found [of anchor_plan pre anchor_highlights rest ca]
    by blast
  have 6: "\<not> has_anchor anchor_plan t \<longrightarrow> section_of planRegex t = []"
    using section_of_plan_empty by blast
  have 7: "(ca = 65306 \<or> ca = 58) \<and> \<not> has_anchor anchor_highlights (pre @ anchor_highlights) \<longrightarrow>
        section_of highlightsRegex (pre @ anchor_highlights @ ca # rest) = trim rest"
    unfolding highlightsRegex_def
    using last_found [of anchor_highlights pre ca rest]
    by blast
  have 8: "\<not> has_anchor anchor_highlights t \<longrightarrow> section_of highlightsRegex t = []"
    using section_of_highlights_empty by blast
  have 9: "split_sections t
       = (if section_of titleRegex t = [] \<and> section_of planRegex t = []
             \<and> section_of highlightsRegex t = []
          then fallback_sections t
          else (section_of titleRegex t, section_of planRegex t, section_of highlightsRegex t))"
    by (simp add: split_sections_def Let_def)
  have 10: "\<not> has_anchor anchor_plan t \<and> \<not> has_anchor anchor_highlights t \<longrightarrow>
        split_sections t = fallback_sections t"
    using section_of_title_empty [of t] section_of_plan_empty [of t]
      section_of_highlights_empty [of t]
    by (simp add: split_sections_def)
  show ?thesis
    using 1 2 3 4 5 6 7 8 9 10 by (intro conjI)
qed

theorem partial_anchor_amended_witness:
  "split_sections (anchor_title @ 58 # ascii ''A'' @ anchor_plan @ 58 # ascii ''B'')
     = (ascii ''A'', [], [])
   \<and> split_sections (anchor_plan @ 65306 # ascii '' B '' @ anchor_highlights @ 58 # ascii ''C '')
       = ([], ascii ''B'', ascii ''C'')
   \<and> split_sections (anchor_highlights @ 58 # ascii '' '')
       = (placeholder_title, anchor_highlights @ 58 # ascii '' '', placeholder_highlights)
   \<and> split_sections (anchor_plan @ 58 # ascii ''X'' @ anchor_title @ 58 # ascii ''Y'')
       = (placeholder_title, anchor_plan @ 58 # ascii ''X'' @ anchor_title @ 58 # ascii ''Y'',
          placeholder_highlights)
   \<and> split_sections (anchor_title @ ascii '':A'') = fallback_sections (anchor_title @ ascii '':A'')"
proof -
  note c = conjunct2
  let ?t1 = "anchor_title @ 58 # ascii ''A'' @ anchor_plan @ 58 # ascii ''B''"
  let ?t2 = "anchor_plan @ 65306 # ascii '' B '' @ anchor_highlights @ 58 # ascii ''C ''"
  let ?t3 = "anchor_highlights @ 58 # ascii '' ''"
  let ?t4 = "anchor_plan @ 58 # ascii ''X'' @ anchor_title @ 58 # ascii ''Y''"
  let ?t5 = "anchor_title @ ascii '':A''"
  have tr: "trim (ascii ''A'') = ascii ''A''" "trim (ascii '' B '') = ascii ''B''"
    "trim (ascii ''C '') = ascii ''C''" "trim (ascii '' '') = []"
    by code_simp+
  have ne: "ascii ''A'' \<noteq> []" "ascii ''B'' \<noteq> []" "ascii ''C'' \<noteq> []"
    by (simp_all add: ascii_def)
  have h1: "\<not> has_anchor anchor_title ([] @ anchor_title)"
    "\<not> has_anchor anchor_plan (ascii ''A'' @ anchor_plan)"
    "\<not> has_anchor anchor_plan ((anchor_title @ 58 # ascii ''A'') @ anchor_plan)"
    "\<not> has_anchor anchor_highlights (ascii ''B'')"
    "\<not> has_anchor anchor_highlights ?t1"
    by code_simp+
  have h2: "\<not> has_anchor anchor_title ?t2"
    "\<not> has_anchor anchor_plan ([] @ anchor_plan)"
    "\<not> has_anchor anchor_highlights (ascii '' B '' @ anchor_highlights)"
    "\<not> has_anchor anchor_highlights
         ((anchor_plan @ 65306 # ascii '' B '') @ anchor_highlights)"
    by code_simp+
  have h3: "\<not> has_anchor anchor_title ?t3" "\<not> has_anchor anchor_plan ?t3"
    "\<not> has_anchor anchor_highlights ([] @ anchor_highlights)"
    by code_simp+
  have h4: "\<not> has_anchor anchor_title ((anchor_plan @ 58 # ascii ''X'') @ anchor_title)"
    "\<not> has_anchor anchor_plan (ascii ''Y'')"
    "\<not> has_anchor anchor_plan ([] @ anchor_plan)"
    "\<not> has_anchor anchor_highlights (ascii ''X'' @ anchor_title @ 58 # ascii ''Y'')"
    "\<not> has_anchor anchor_highlights ?t4"
    by code_simp+
  have h5: "\<not> has_anchor anchor_plan ?t5" "\<not> has_anchor anchor_highlights ?t5"
    by code_simp+
  have f: "fallback_sections ?t3 = (placeholder_title, ?t3, placeholder_highlights)"
    "fallback_sections ?t4 = (placeholder_title, ?t4, placeholder_highlights)"
    by code_simp+
  have t1: "section_of titleRegex ?t1 = ascii ''A''"
    using partial_anchor_amended [where pre = "[]" and ca = 58 and cb = 58
        and mid = "ascii ''A''" and rest = "ascii ''B''", THEN conjunct1] h1(1,2) tr(1)
    by simp
  have p1: "section_of planRegex ?t1 = []"
    using partial_anchor_amended [where pre = "anchor_title @ 58 # ascii ''A''" and ca = 58
        and rest = "ascii ''B''", THEN c, THEN c, THEN c, THEN c, THEN conjunct1] h1(3,4)
    by simp
  have g1: "section_of highlightsRegex ?t1 = []"
    using partial_anchor_amended [where t = ?t1,
        THEN c, THEN c, THEN c, THEN c, THEN c, THEN c, THEN c, THEN conjunct1] h1(5)
    by simp
  have 1: "split_sections ?t1 = (ascii ''A'', [], [])"
    using partial_anchor_amended [where t = ?t1,
        THEN c, THEN c, THEN c, THEN c, THEN c, THEN c, THEN c, THEN c, THEN conjunct1]
      t1 p1 g1 ne(1)
    by simp
  have t2: "section_of titleRegex ?t2 = []"
    using partial_anchor_amended [where t = ?t2, THEN c, THEN c, THEN conjunct1] h2(1)
    by simp
  have p2: "section_of planRegex ?t2 = ascii ''B''"
    using partial_anchor_amended [where pre = "[]" and ca = 65306 and cb = 58
        and mid = "ascii '' B ''" and rest = "ascii ''C ''",
        THEN c, THEN c, THEN c, THEN conjunct1] h2(2,3) tr(2)
    by simp
  have g2: "section_of highlightsRegex ?t2 = ascii ''C''"
    using partial_anchor_amended [where pre = "anchor_plan @ 65306 # ascii '' B ''"
        and ca = 58 and rest = "ascii ''C ''",
        THEN c, THEN c, THEN c, THEN c, THEN c, THEN c, THEN conjunct1] h2(4) tr(3)
    by simp
  have 2: "split_sections ?t2 = ([], ascii ''B'', ascii ''C'')"
    using partial_anchor_amended [where t = ?t2,
        THEN c, THEN c, THEN c, THEN c, THEN c, THEN c, THEN c, THEN c, THEN conjunct1]
      t2 p2 g2 ne(2)
    by simp
  have t3: "section_of titleRegex ?t3 = []"
    using partial_anchor_amended [where t = ?t3, THEN c, THEN c, THEN conjunct1] h3(1)
    by simp
  have p3: "section_of planRegex ?t3 = []"
    using partial_anchor_amended [where t = ?t3,
        THEN c, THEN c, THEN c, THEN c, THEN c, THEN conjunct1] h3(2)
    by simp
  have g3: "section_of highlightsRegex ?t3 = []"
    using partial_anchor_amended [where pre = "[]" and ca = 58 and rest = "ascii '' ''",
        THEN c, THEN c, THEN c, THEN c, THEN c, THEN c, THEN conjunct1] h3(3) tr(4)
    by simp
  have 3: "split_sections ?t3 = (placeholder_title, ?t3, placeholder_highlights)"
    using partial_anchor_amended [where t = ?t3,
        THEN c, THEN c, THEN c, THEN c, THEN c, THEN c, THEN c, THEN c, THEN conjunct1]
      t3 p3 g3 f(1)
    by simp
  have t4: "section_of titleRegex ?t4 = []"
    using partial_anchor_amended [where pre = "anchor_plan @ 58 # ascii ''X''" and ca = 58
        and rest = "ascii ''Y''", THEN c, THEN conjunct1] h4(1,2)
    by simp
  have p4: "section_of planRegex ?t4 = []"
    using partial_anchor_amended [where pre = "[]" and ca = 58
        and rest = "ascii ''X'' @ anchor_title @ 58 # ascii ''Y''",
        THEN c, THEN c, THEN c, THEN c, THEN conjunct1] h4(3,4)
    by simp
  have g4: "section_of highlightsRegex ?t4 = []"
    using partial_anchor_amended [where t = ?t4,
        THEN c, THEN c, THEN c, THEN c, THEN c, THEN c, THEN c, THEN conjunct1] h4(5)
    by simp
  have 4: "split_sections ?t4 = (placeholder_title, ?t4, placeholder_highlights)"
    using partial_anchor_amended [where t = ?t4,
        THEN c, THEN c, THEN c, THEN c, THEN c, THEN c, THEN c, THEN c, THEN conjunct1]
      t4 p4 g4 f(2)
    by simp
  have 5: "split_sections ?t5 = fallback_sections ?t5"
    using partial_anchor_amended [where t = ?t5,
        THEN c, THEN c, THEN c, THEN c, THEN c, THEN c, THEN c, THEN c, THEN c] h5
    by simp
  show ?thesis
    using 1 2 3 4 5 by (intro conjI)
qed

section \<open>The paragraphs of a text without anchors\<close>

subsection \<open>The separator of paragraphs\<close>

lemma paragraph_no_match: "x \<noteq> 10 \<Longrightarrow> rmatch paragraphRegex (x # xs) g c = None"
  by (simp add: paragraphRegex_def)

lemma split_scan:
  "10 \<notin> set p
   \<Longrightarrow> split_from paragraphRegex 0 acc (p @ s) = split_from paragraphRegex 0 (rev p @ acc) s"
proof (induction p arbitrary: acc)
  case Nil
  show ?case by simp
next
  case (Cons x p)
  then have "x \<noteq> 10" "10 \<notin> set p" by auto
  with Cons.IH [of "x # acc"] show ?case
    by (simp add: paragraph_no_match)
qed

text \<open>
  After the first line feed of a separator, the white space the greedy star takes
  cannot be followed by the closing line feed when neither it nor what comes after it
  holds one: the separator ends at the second line feed.
\<close>

lemma separator_longer_fails:
  assumes "\<forall>x\<in>set w. is_space x \<and> x \<noteq> 10" and "u = [] \<or> \<not> is_space (hd u)"
  shows "rmatch [StarG Space, Chr 10] (w @ u) g c = None"
  using assms(1)
proof (induction w)
  case Nil
  show ?case
  proof (cases u)
    case Nil
    then show ?thesis by simp
  next
    case (Cons x xs)
    with assms(2) have "\<not> is_space x" by simp
    with space_facts(1) have "x \<noteq> 10" by auto
    with Cons \<open>\<not> is_space x\<close> show ?thesis by simp
  qed
next
  case (Cons y w)
  then have "rmatch [StarG Space, Chr 10] (w @ u) g c = None" "is_space y" "y \<noteq> 10"
    by simp_all
  then show ?case by simp
qed

lemma separator_match:
  assumes "10 \<notin> set q" and "dropWhile is_space q \<noteq> [] \<or> s = []"
  shows "rmatch paragraphRegex (10 # 10 # q @ s) [] None = Some (q @ s, None)"
proof -
  define w where "w = takeWhile is_space q"
  define d where "d = dropWhile is_space q"
  have q: "q = w @ d"
    by (simp add: w_def d_def)
  have w: "\<forall>x\<in>set w. is_space x \<and> x \<noteq> 10"
  proof
    fix x assume x: "x \<in> set w"
    then have "is_space x" "x \<in> set q"
      unfolding w_def by (auto dest: set_takeWhileD)
    with assms(1) show "is_space x \<and> x \<noteq> 10" by auto
  qed
  have u: "d @ s = [] \<or> \<not> is_space (hd (d @ s))"
  proof (cases "d = []")
    case True
    with assms(2) show ?thesis by (simp add: d_def)
  next
    case False
    then have "\<not> is_space (hd d)"
      unfolding d_def by (rule hd_dropWhile)
    with False show ?thesis by simp
  qed
  from separator_longer_fails [OF w u]
  have "rmatch [StarG Space, Chr 10] (q @ s) [] None = None"
    using q by simp
  then show ?thesis
    by (simp add: paragraphRegex_def space_facts)
qed

subsection \<open>The pieces of paragraphs joined by blank lines\<close>

lemma join_paragraphs:
  "join [10, 10] (p # qs) = p @ concat (map (\<lambda>q. 10 # 10 # q) qs)"
  by (induction qs arbitrary: p) simp_all

lemma split_paragraphs_from:
  "10 \<notin> set p \<Longrightarrow> \<forall>q\<in>set qs. 10 \<notin> set q
   \<Longrightarrow> \<forall>q\<in>set (butlast qs). dropWhile is_space q \<noteq> []
   \<Longrightarrow> split_from paragraphRegex 0 acc (p @ concat (map (\<lambda>q. 10 # 10 # q) qs))
       = (rev acc @ p) # qs"
proof (induction qs arbitrary: p acc)
  case Nil
  from split_scan [OF Nil(1), of acc "[]"] show ?case by simp
next
  case (Cons q qs)
  let ?s = "concat (map (\<lambda>q. 10 # 10 # q) qs)"
  from Cons.prems(2) have q: "10 \<notin> set q" and qs: "\<forall>q\<in>set qs. 10 \<notin> set q"
    by simp_all
  have "dropWhile is_space q \<noteq> [] \<or> ?s = []"
    using Cons.prems(3) by (cases qs) simp_all
  with q have m: "rmatch paragraphRegex (10 # 10 # q @ ?s) [] None = Some (q @ ?s, None)"
    by (rule separator_match)
  have "\<forall>q\<in>set (butlast qs). dropWhile is_space q \<noteq> []"
    using Cons.prems(3) by (cases qs) simp_all
  from Cons.IH [OF q qs this, of "[]"]
  have rest: "split_from paragraphRegex 0 [] (q @ ?s) = q # qs"
    by simp
  have "split_from paragraphRegex 0 acc (p @ 10 # 10 # q @ ?s)
          = split_from paragraphRegex 0 (rev p @ acc) (10 # 10 # q @ ?s)"
    using Cons.prems(1) by (rule split_scan)
  also have "\<dots> = rev (rev p @ acc) # split_from paragraphRegex (Suc 0) [] (10 # q @ ?s)"
    using m by simp
  also have "\<dots> = (rev acc @ p) # q # qs"
    using rest by simp
  finally show ?case by simp
qed

lemma split_paragraphs:
  assumes "\<forall>q\<in>set (p # qs). 10 \<notin> set q"
    and "\<forall>q\<in>set (butlast qs). dropWhile is_space q \<noteq> []"
  shows "split_re paragraphRegex (join [10, 10] (p # qs)) = p # qs"
proof (cases "join [10, 10] (p # qs) = []")
  case True
  then have "p = []" "qs = []"
    by (cases qs; simp add: join_paragraphs)+
  then show ?thesis
    by (simp add: split_re_def paragraphRegex_def)
next
  case False
  from assms have "split_from paragraphRegex 0 [] (p @ concat (map (\<lambda>q. 10 # 10 # q) qs))
      = (rev [] @ p) # qs"
    by (intro split_paragraphs_from) simp_all
  then have "split_from paragraphRegex 0 [] (join [10, 10] (p # qs)) = p # qs"
    by (simp only: join_paragraphs rev.simps append_Nil)
  moreover from False
  have "split_re paragraphRegex (join [10, 10] (p # qs))
          = split_from paragraphRegex 0 [] (join [10, 10] (p # qs))"
    by (simp only: split_re_def if_False)
  ultimately show ?thesis by simp
qed

lemma trim_nonblank:
  assumes "trim q \<noteq> []"
  shows "dropWhile is_space q \<noteq> []"
proof
  assume d: "dropWhile is_space q = []"
  have "trim q = []"
    unfolding trim_def d by simp
  with assms show False by simp
qed

lemma split_paragraph_list:
  assumes "\<forall>q\<in>set (pa # ps @ [pz]). 10 \<notin> set q" and "\<forall>q\<in>set ps. trim q \<noteq> []"
  shows "split_re paragraphRegex (join [10, 10] (pa # ps @ [pz])) = pa # ps @ [pz]"
proof -
  have "\<forall>q\<in>set (butlast (ps @ [pz])). dropWhile is_space q \<noteq> []"
    using assms(2) by (auto simp del: dropWhile_eq_Nil_conv dest: trim_nonblank)
  with assms(1) show ?thesis
    by (rule split_paragraphs)
qed

lemma fallback_without_anchors:
  assumes "\<not> has_anchor anchor_title t" and "\<not> has_anchor anchor_plan t"
    and "\<not> has_anchor anchor_highlights t"
  shows "split_sections t = fallback_sections t"
  using assms
  by (simp add: split_sections_def section_of_title_empty section_of_plan_empty
      section_of_highlights_empty)

lemma cascade_paragraphs:
  assumes "\<not> has_anchor anchor_title (join [10, 10] (pa # ps @ [pz]))"
    and "\<not> has_anchor anchor_plan (join [10, 10] (pa # ps @ [pz]))"
    and "\<not> has_anchor anchor_highlights (join [10, 10] (pa # ps @ [pz]))"
    and "ps \<noteq> []"
    and "\<forall>q\<in>set (pa # ps @ [pz]). 10 \<notin> set q" and "\<forall>q\<in>set ps. trim q \<noteq> []"
  shows "split_sections (join [10, 10] (pa # ps @ [pz])) = (pa, join [10, 10] ps, pz)"
proof -
  have s: "split_re paragraphRegex (join [10, 10] (pa # ps @ [pz])) = pa # ps @ [pz]"
    using assms(5,6) by (rule split_paragraph_list)
  have l: "3 \<le> length (pa # ps @ [pz])"
    using assms(4) by (cases ps) simp_all
  show ?thesis
    unfolding fallback_without_anchors [OF assms(1-3)] fallback_sections_def s Let_def
    using l by (simp add: butlast_append)
qed

subsection \<open>The claim about the paragraphs\<close>

text \<open>
  C8, as stated, fails: the text of the three paragraphs \<open>P1\<close>, \<open>P2\<close> and \<open>P3\<close>, each
  followed by a blank line, holds no anchor and three paragraphs separated by blank
  lines, yet the plan is not \<open>P2\<close> and the highlights are not \<open>P3\<close>: the separator at
  the end leaves an empty last piece, which becomes the highlights, and \<open>P3\<close> goes to
  the plan.
\<close>

theorem paragraph_cascade_counterexample:
  "\<not> has_anchor anchor_title (ascii ''P1'' @ [10, 10] @ ascii ''P2'' @ [10, 10] @ ascii ''P3'' @ [10, 10])
   \<and> \<not> has_anchor anchor_plan (ascii ''P1'' @ [10, 10] @ ascii ''P2'' @ [10, 10] @ ascii ''P3'' @ [10, 10])
   \<and> \<not> has_anchor anchor_highlights
         (ascii ''P1'' @ [10, 10] @ ascii ''P2'' @ [10, 10] @ ascii ''P3'' @ [10, 10])
   \<and> split_re paragraphRegex (ascii ''P1'' @ [10, 10] @ ascii ''P2'' @ [10, 10] @ ascii ''P3'' @ [10, 10])
       = [ascii ''P1'', ascii ''P2'', ascii ''P3'', []]
   \<and> split_sections (ascii ''P1'' @ [10, 10] @ ascii ''P2'' @ [10, 10] @ ascii ''P3'' @ [10, 10])
       = (ascii ''P1'', ascii ''P2'' @ [10, 10] @ ascii ''P3'', [])
   \<and> split_sections (ascii ''P1'' @ [10, 10] @ ascii ''P2'' @ [10, 10] @ ascii ''P3'' @ [10, 10])
       \<noteq> (ascii ''P1'', ascii ''P2'', ascii ''P3'')"
  by code_simp

text \<open>
  C8, amended. A text with none of the three anchors that \<open>split\<close> cuts at its
  separators (a line feed, white space, a line feed) into at least three pieces gets
  the first piece as title, the pieces between the first and the last, joined by two
  line feeds, as plan, and the last piece as highlights. The pieces are the paragraphs
  when the text is made of paragraphs without line feeds that are joined by two line
  feeds, none but the first and the last one blank: then the title is the first
  paragraph, the plan the paragraphs in between, joined by two line feeds, and the
  highlights the last paragraph. Written out for three paragraphs, the plan is the
  second one; for four, the second, two line feeds and the third. The last paragraph may
  be empty: that is the text that ends in a separator, whose highlights are empty.
\<close>

theorem paragraph_cascade_amended:
  "(\<not> has_anchor anchor_title t \<and> \<not> has_anchor anchor_plan t
      \<and> \<not> has_anchor anchor_highlights t \<and> 3 \<le> length (split_re paragraphRegex t) \<longrightarrow>
      split_sections t
        = (hd (split_re paragraphRegex t),
           join [10, 10] (butlast (tl (split_re paragraphRegex t))),
           last (split_re paragraphRegex t)))
   \<and> ((\<forall>q\<in>set (pa # ps @ [pz]). 10 \<notin> set q) \<and> (\<forall>q\<in>set ps. trim q \<noteq> []) \<longrightarrow>
        split_re paragraphRegex (join [10, 10] (pa # ps @ [pz])) = pa # ps @ [pz])
   \<and> (\<not> has_anchor anchor_title (join [10, 10] (pa # ps @ [pz]))
        \<and> \<not> has_anchor anchor_plan (join [10, 10] (pa # ps @ [pz]))
        \<and> \<not> has_anchor anchor_highlights (join [10, 10] (pa # ps @ [pz]))
        \<and> ps \<noteq> [] \<and> (\<forall>q\<in>set (pa # ps @ [pz]). 10 \<notin> set q)
        \<and> (\<forall>q\<in>set ps. trim q \<noteq> []) \<longrightarrow>
        split_sections (join [10, 10] (pa # ps @ [pz])) = (pa, join [10, 10] ps, pz))
   \<and> (\<not> has_anchor anchor_title (pa @ 10 # 10 # pb @ 10 # 10 # pz)
        \<and> \<not> has_anchor anchor_plan (pa @ 10 # 10 # pb @ 10 # 10 # pz)
        \<and> \<not> has_anchor anchor_highlights (pa @ 10 # 10 # pb @ 10 # 10 # pz)
        \<and> 10 \<notin> set pa \<and> 10 \<notin> set pb \<and> 10 \<notin> set pz \<and> trim pb \<noteq> [] \<longrightarrow>
        split_sections (pa @ 10 # 10 # pb @ 10 # 10 # pz) = (pa, pb, pz))
   \<and> (\<not> has_anchor anchor_title (pa @ 10 # 10 # pb @ 10 # 10 # pc @ 10 # 10 # pz)
        \<and> \<not> has_anchor anchor_plan (pa @ 10 # 10 # pb @ 10 # 10 # pc @ 10 # 10 # pz)
        \<and> \<not> has_anchor anchor_highlights (pa @ 10 # 10 # pb @ 10 # 10 # pc @ 10 # 10 # pz)
        \<and> 10 \<notin> set pa \<and> 10 \<notin> set pb \<and> 10 \<notin> set pc \<and> 10 \<notin> set pz
        \<and> trim pb \<noteq> [] \<and> trim pc \<noteq> [] \<longrightarrow>
        split_sections (pa @ 10 # 10 # pb @ 10 # 10 # pc @ 10 # 10 # pz)
          = (pa, pb @ 10 # 10 # pc, pz))"
proof -
  have 1: "\<not> has_anchor anchor_title t \<and> \<not> has_anchor anchor_plan t
      \<and> \<not> has_anchor anchor_highlights t \<and> 3 \<le> length (split_re paragraphRegex t) \<longrightarrow>
      split_sections t
        = (hd (split_re paragraphRegex t),
           join [10, 10] (butlast (tl (split_re paragraphRegex t))),
           last (split_re paragraphRegex t))"
    by (simp add: fallback_without_anchors fallback_sections_def Let_def)
  have 2: "(\<forall>q\<in>set (pa # ps @ [pz]). 10 \<notin> set q) \<and> (\<forall>q\<in>set ps. trim q \<noteq> []) \<longrightarrow>
        split_re paragraphRegex (join [10, 10] (pa # ps @ [pz])) = pa # ps @ [pz]"
    using split_paragraph_list by blast
  have 3: "\<not> has_anchor anchor_title (join [10, 10] (pa # ps @ [pz]))
        \<and> \<not> has_anchor anchor_plan (join [10, 10] (pa # ps @ [pz]))
        \<and> \<not> has_anchor anchor_highlights (join [10, 10] (pa # ps @ [pz]))
        \<and> ps \<noteq> [] \<and> (\<forall>q\<in>set (pa # ps @ [pz]). 10 \<notin> set q)
        \<and> (\<forall>q\<in>set ps. trim q \<noteq> []) \<longrightarrow>
        split_sections (join [10, 10] (pa # ps @ [pz])) = (pa, join [10, 10] ps, pz)"
    using cascade_paragraphs by blast
  have 4: "\<not> has_anchor anchor_title (pa @ 10 # 10 # pb @ 10 # 10 # pz)
        \<and> \<not> has_anchor anchor_plan (pa @ 10 # 10 # pb @ 10 # 10 # pz)
        \<and> \<not> has_anchor anchor_highlights (pa @ 10 # 10 # pb @ 10 # 10 # pz)
        \<and> 10 \<notin> set pa \<and> 10 \<notin> set pb \<and> 10 \<notin> set pz \<and> trim pb \<noteq> [] \<longrightarrow>
        split_sections (pa @ 10 # 10 # pb @ 10 # 10 # pz) = (pa, pb, pz)"
    using cascade_paragraphs [of pa "[pb]" pz] by simp
  have 5: "\<not> has_anchor anchor_title (pa @ 10 # 10 # pb @ 10 # 10 # pc @ 10 # 10 # pz)
        \<and> \<not> has_anchor anchor_plan (pa @ 10 # 10 # pb @ 10 # 10 # pc @ 10 # 10 # pz)
        \<and> \<not> has_anchor anchor_highlights (pa @ 10 # 10 # pb @ 10 # 10 # pc @ 10 # 10 # pz)
        \<and> 10 \<notin> set pa \<and> 10 \<notin> set pb \<and> 10 \<notin> set pc \<and> 10 \<notin> set pz
        \<and> trim pb \<noteq> [] \<and> trim pc \<noteq> [] \<longrightarrow>
        split_sections (pa @ 10 # 10 # pb @ 10 # 10 # pc @ 10 # 10 # pz)
          = (pa, pb @ 10 # 10 # pc, pz)"
    using cascade_paragraphs [of pa "[pb, pc]" pz] by simp
  show ?thesis
    using 1 2 3 4 5 by (intro conjI)
qed

theorem paragraph_cascade_amended_witness:
  "split_sections (ascii ''P1'' @ 10 # 10 # ascii ''P2'' @ 10 # 10 # ascii ''P3'')
     = (ascii ''P1'', ascii ''P2'', ascii ''P3'')
   \<and> split_sections (ascii ''P1'' @ 10 # 10 # ascii ''P2'' @ 10 # 10 # ascii ''P3''
        @ 10 # 10 # ascii ''P4'')
       = (ascii ''P1'', ascii ''P2'' @ 10 # 10 # ascii ''P3'', ascii ''P4'')
   \<and> split_sections (ascii ''P1'' @ 10 # 10 # ascii ''P2'' @ 10 # 10 # ascii ''P3'' @ 10 # 10 # [])
       = (ascii ''P1'', ascii ''P2'' @ 10 # 10 # ascii ''P3'', [])
   \<and> split_re paragraphRegex (join [10, 10] (ascii ''P1'' # [ascii ''P2'', ascii ''P3''] @ [[]]))
       = ascii ''P1'' # [ascii ''P2'', ascii ''P3''] @ [[]]
   \<and> split_sections (join [10, 10] (ascii ''P1'' # [ascii ''P2'', ascii ''P3''] @ [ascii ''P4'']))
       = (ascii ''P1'', join [10, 10] [ascii ''P2'', ascii ''P3''], ascii ''P4'')
   \<and> split_sections (ascii ''P1'' @ 10 # 10 # ascii ''P2'' @ 10 # 10 # ascii ''P3'')
       = (hd [ascii ''P1'', ascii ''P2'', ascii ''P3''],
          join [10, 10] (butlast (tl [ascii ''P1'', ascii ''P2'', ascii ''P3''])),
          last [ascii ''P1'', ascii ''P2'', ascii ''P3''])"
proof -
  note c = conjunct2
  let ?tj = "join [10, 10] (ascii ''P1'' # [ascii ''P2'', ascii ''P3''] @ [ascii ''P4''])"
  let ?t3 = "ascii ''P1'' @ 10 # 10 # ascii ''P2'' @ 10 # 10 # ascii ''P3''"
  let ?t4 = "ascii ''P1'' @ 10 # 10 # ascii ''P2'' @ 10 # 10 # ascii ''P3''
               @ 10 # 10 # ascii ''P4''"
  let ?t5 = "ascii ''P1'' @ 10 # 10 # ascii ''P2'' @ 10 # 10 # ascii ''P3'' @ 10 # 10 # []"
  have a3: "\<not> has_anchor anchor_title ?t3" "\<not> has_anchor anchor_plan ?t3"
    "\<not> has_anchor anchor_highlights ?t3"
    by code_simp+
  have a4: "\<not> has_anchor anchor_title ?t4" "\<not> has_anchor anchor_plan ?t4"
    "\<not> has_anchor anchor_highlights ?t4"
    by code_simp+
  have a5: "\<not> has_anchor anchor_title ?t5" "\<not> has_anchor anchor_plan ?t5"
    "\<not> has_anchor anchor_highlights ?t5"
    by code_simp+
  have n: "10 \<notin> set (ascii ''P1'')" "10 \<notin> set (ascii ''P2'')" "10 \<notin> set (ascii ''P3'')"
    "10 \<notin> set (ascii ''P4'')" "10 \<notin> set ([] :: jsstring)"
    by (simp_all add: ascii_def)
  have t: "trim (ascii ''P2'') \<noteq> []" "trim (ascii ''P3'') \<noteq> []"
    by code_simp+
  have 1: "split_sections ?t3 = (ascii ''P1'', ascii ''P2'', ascii ''P3'')"
    using paragraph_cascade_amended [where pa = "ascii ''P1''" and pb = "ascii ''P2''"
        and pz = "ascii ''P3''", THEN c, THEN c, THEN c, THEN conjunct1] a3 n(1,2,3) t(1)
    by blast
  have 2: "split_sections ?t4 = (ascii ''P1'', ascii ''P2'' @ 10 # 10 # ascii ''P3'', ascii ''P4'')"
    using paragraph_cascade_amended [where pa = "ascii ''P1''" and pb = "ascii ''P2''"
        and pc = "ascii ''P3''" and pz = "ascii ''P4''", THEN c, THEN c, THEN c, THEN c]
      a4 n(1,2,3,4) t
    by blast
  have 3: "split_sections ?t5 = (ascii ''P1'', ascii ''P2'' @ 10 # 10 # ascii ''P3'', [])"
    using paragraph_cascade_amended [where pa = "ascii ''P1''" and pb = "ascii ''P2''"
        and pc = "ascii ''P3''" and pz = "[]", THEN c, THEN c, THEN c, THEN c]
      a5 n(1,2,3,5) t
    by blast
  have 4: "split_re paragraphRegex (join [10, 10] (ascii ''P1'' # [ascii ''P2'', ascii ''P3''] @ [[]]))
       = ascii ''P1'' # [ascii ''P2'', ascii ''P3''] @ [[]]"
    using paragraph_cascade_amended [where pa = "ascii ''P1''"
        and ps = "[ascii ''P2'', ascii ''P3'']" and pz = "[]", THEN c, THEN conjunct1]
      n(1,2,3,5) t
    by simp
  have aj: "\<not> has_anchor anchor_title ?tj" "\<not> has_anchor anchor_plan ?tj"
    "\<not> has_anchor anchor_highlights ?tj"
    by code_simp+
  have 5: "split_sections ?tj = (ascii ''P1'', join [10, 10] [ascii ''P2'', ascii ''P3''], ascii ''P4'')"
    using paragraph_cascade_amended [where pa = "ascii ''P1''"
        and ps = "[ascii ''P2'', ascii ''P3'']" and pz = "ascii ''P4''",
        THEN c, THEN c, THEN conjunct1] aj n(1,2,3,4) t
    by simp
  have s3: "split_re paragraphRegex ?t3 = [ascii ''P1'', ascii ''P2'', ascii ''P3'']"
    by code_simp
  then have l3: "3 \<le> length (split_re paragraphRegex ?t3)"
    by simp
  have 6: "split_sections ?t3
             = (hd [ascii ''P1'', ascii ''P2'', ascii ''P3''],
                join [10, 10] (butlast (tl [ascii ''P1'', ascii ''P2'', ascii ''P3''])),
                last [ascii ''P1'', ascii ''P2'', ascii ''P3''])"
    using paragraph_cascade_amended [where t = ?t3, THEN conjunct1] a3 l3
    unfolding s3 by blast
  show ?thesis
    using 1 2 3 4 5 6 by (intro conjI)
qed

section \<open>Properties of the Event Interpreter\<close>

lemma regular_event_keeps:
  assumes "regular_event rt et obj st = Inr st'"
  shows "completeResponse st' = completeResponse st \<and> deltaCount st' = deltaCount st"
  using assms unfolding regular_event_def
  by (auto split: if_splits option.splits)

lemma fast_path_deltaCount:
  "fast_path rt ed obj st = Inr s \<Longrightarrow> deltaCount s = deltaCount st"
  by (auto simp: fast_path_def split: if_splits)

lemma fast_path_error: "fast_path rt ed obj st = Inl e \<Longrightarrow> e = TypeError"
  by (auto simp: fast_path_def split: if_splits)

lemma count_delta_deltaCount:
  "count_delta rt ed obj st = Inr s \<Longrightarrow> deltaCount s = Suc (deltaCount st)"
  by (auto simp: count_delta_def Let_def dest: fast_path_deltaCount split: if_splits)

lemma count_delta_error: "count_delta rt ed obj st = Inl e \<Longrightarrow> e = TypeError"
  by (auto simp: count_delta_def Let_def dest: fast_path_error split: if_splits)

lemma count_delta_other:
  assumes "deltaCount st \<noteq> 1"
  shows "count_delta rt ed obj st = Inr (st\<lparr> deltaCount := Suc (deltaCount st) \<rparr>)"
  using assms by (simp add: count_delta_def Let_def)

lemma count_delta_second:
  assumes "deltaCount st = 1"
  shows "count_delta rt ed obj st = fast_path rt ed obj (st\<lparr> deltaCount := 2 \<rparr>)"
  using assms by (simp add: count_delta_def Let_def numeral_2_eq_2)

lemma log_type_answer:
  assumes "get_prop obj (ascii ''type'') = Some (JStr (ascii ''answer''))"
  shows "js_to_string rt (log_type obj) = Some (ascii ''answer'')"
  using assms by (simp add: log_type_def val_or_def ascii_def)

lemma process_event_answer_delta:
  assumes "is_answer_delta rt et ed"
  shows "\<exists>obj. JSON_parse rt ed = Some obj
           \<and> get_prop obj (ascii ''type'') = Some (JStr (ascii ''answer''))
           \<and> process_event rt et ed st
               = (case count_delta rt ed obj st of
                    Inl e \<Rightarrow> Inl e
                  | Inr s \<Rightarrow> regular_event rt et obj s)"
proof -
  from assms obtain obj where o: "JSON_parse rt ed = Some obj"
    "get_prop obj (ascii ''type'') = Some (JStr (ascii ''answer''))"
    and e: "ed \<noteq> []" "et = ascii ''conversation.message.delta''"
    by (auto simp: is_answer_delta_def split: option.splits)
  from o(2) have "obj \<noteq> JNull" by auto
  with o e(1) log_type_answer [OF o(2), of rt] show ?thesis
    unfolding e(2) by (simp add: process_event_def)
qed

lemma process_event_other:
  assumes "\<not> is_answer_delta rt et ed" and "process_event rt et ed st = Inr st'"
  shows "completeResponse st' = completeResponse st \<and> deltaCount st' = deltaCount st"
proof (cases "ed = []")
  case True
  with assms(2) show ?thesis by (simp add: process_event_def)
next
  case False
  show ?thesis
  proof (cases "JSON_parse rt ed")
    case None
    with False assms(2) show ?thesis by (simp add: process_event_def)
  next
    case (Some obj)
    with False assms(1) have "\<not> (et = ascii ''conversation.message.delta''
        \<and> get_prop obj (ascii ''type'') = Some (JStr (ascii ''answer'')))"
      by (auto simp: is_answer_delta_def)
    with Some False assms(2) have "regular_event rt et obj st = Inr st'"
      by (auto simp: process_event_def split: if_splits)
    then show ?thesis by (rule regular_event_keeps)
  qed
qed

lemma process_event_answer_steps:
  assumes "is_answer_delta rt et ed" and "process_event rt et ed st = Inr st'"
  shows "\<exists>obj s. JSON_parse rt ed = Some obj
           \<and> get_prop obj (ascii ''type'') = Some (JStr (ascii ''answer''))
           \<and> count_delta rt ed obj st = Inr s \<and> regular_event rt et obj s = Inr st'"
proof -
  from process_event_answer_delta [OF assms(1), of st] obtain obj
    where o: "JSON_parse rt ed = Some obj"
      "get_prop obj (ascii ''type'') = Some (JStr (ascii ''answer''))"
      "process_event rt et ed st
         = (case count_delta rt ed obj st of
              Inl e \<Rightarrow> Inl e
            | Inr s \<Rightarrow> regular_event rt et obj s)"
    by blast
  from o(3) assms(2) obtain s where "count_delta rt ed obj st = Inr s"
    "regular_event rt et obj s = Inr st'"
    by (cases "count_delta rt ed obj st") simp_all
  with o(1,2) show ?thesis by blast
qed

lemma process_event_count:
  assumes "process_event rt et ed st = Inr st'"
  shows "deltaCount st' = deltaCount st + (if is_answer_delta rt et ed then 1 else 0)"
proof (cases "is_answer_delta rt et ed")
  case True
  from process_event_answer_steps [OF True assms] obtain obj s
    where s: "count_delta rt ed obj st = Inr s" "regular_event rt et obj s = Inr st'"
    by blast
  from regular_event_keeps [OF s(2)] count_delta_deltaCount [OF s(1)] True show ?thesis
    by simp
next
  case False
  from process_event_other [OF False assms] False show ?thesis by simp
qed

lemma process_event_complete:
  assumes "process_event rt et ed st = Inr st'"
    and "completeResponse st' \<noteq> completeResponse st"
  shows "is_answer_delta rt et ed \<and> deltaCount st = 1"
proof -
  have a: "is_answer_delta rt et ed"
    using assms process_event_other by blast
  from process_event_answer_steps [OF a assms(1)] obtain obj s
    where s: "count_delta rt ed obj st = Inr s" "regular_event rt et obj s = Inr st'"
    by blast
  from regular_event_keeps [OF s(2)] assms(2)
  have "completeResponse s \<noteq> completeResponse st" by simp
  then have "deltaCount st = 1"
    using count_delta_other [of st rt ed obj] s(1) by (cases "deltaCount st = 1") auto
  with a show ?thesis by simp
qed

lemma run_events_count:
  "run_events rt evs st = Inr st'
   \<Longrightarrow> deltaCount st'
       = deltaCount st + length (filter (\<lambda>ev. is_answer_delta rt (fst ev) (snd ev)) evs)"
proof (induction evs arbitrary: st)
  case Nil
  then show ?case by simp
next
  case (Cons ev evs)
  from Cons.prems obtain st1 where 1: "process_event rt (fst ev) (snd ev) st = Inr st1"
    and 2: "run_events rt evs st1 = Inr st'"
    by (auto split: sum.splits)
  from process_event_count [OF 1] Cons.IH [OF 2] show ?case by simp
qed

lemma delta_type_includes:
  "str_includes (ascii ''conversation.message.delta'') (ascii ''conversation.message.delta'')"
  by code_simp

lemma regular_answer_delta:
  assumes "get_prop obj (ascii ''type'') = Some (JStr (ascii ''answer''))"
  shows "regular_event rt (ascii ''conversation.message.delta'') obj st
         = (if truthy (deltaContent obj)
            then (case js_to_string rt (deltaContent obj) of
                    None \<Rightarrow> Inl TypeError
                  | Some s \<Rightarrow>
                      if length_converts rt (deltaContent obj)
                      then Inr (st\<lparr> accumulatedResponse := accumulatedResponse st @ s \<rparr>)
                      else Inl TypeError)
            else Inr st)"
proof -
  have "messageType obj = JStr (ascii ''answer'')"
    using assms by (simp add: messageType_def val_or_def ascii_def)
  then show ?thesis
    by (simp add: regular_event_def delta_type_includes)
qed

lemma regular_answer_keeps:
  assumes "get_prop obj (ascii ''type'') = Some (JStr (ascii ''answer''))"
    and "regular_event rt (ascii ''conversation.message.delta'') obj s = Inr s'"
  shows "completeResponse s' = completeResponse s \<and> isFinished s' = isFinished s"
  using assms(2) unfolding regular_answer_delta [OF assms(1)]
  by (auto split: if_splits option.splits)

lemma regular_answer_error:
  assumes "get_prop obj (ascii ''type'') = Some (JStr (ascii ''answer''))"
    and "regular_event rt (ascii ''conversation.message.delta'') obj s = Inl e"
  shows "e = TypeError"
  using assms(2) unfolding regular_answer_delta [OF assms(1)]
  by (auto split: if_splits option.splits)

lemma length_converts_string: "length_converts rt (JStr s)"
  by (simp add: length_converts_def)

lemma process_event_second:
  assumes "is_answer_delta rt et ed" and "deltaCount st = 1"
    and "process_event rt et ed st = Inr st'"
  shows "\<exists>obj s. JSON_parse rt ed = Some obj
           \<and> fast_path rt ed obj (st\<lparr> deltaCount := 2 \<rparr>) = Inr s
           \<and> completeResponse st' = completeResponse s \<and> isFinished st' = isFinished s"
proof -
  from process_event_answer_steps [OF assms(1,3)] obtain obj s
    where o: "JSON_parse rt ed = Some obj"
      "get_prop obj (ascii ''type'') = Some (JStr (ascii ''answer''))"
      "count_delta rt ed obj st = Inr s" "regular_event rt et obj s = Inr st'"
    by blast
  from assms(1) have et: "et = ascii ''conversation.message.delta''"
    by (simp add: is_answer_delta_def)
  from o(3) have f: "fast_path rt ed obj (st\<lparr> deltaCount := 2 \<rparr>) = Inr s"
    by (simp add: count_delta_second [OF assms(2)])
  from regular_answer_keeps [OF o(2)] o(4) et
  have "completeResponse st' = completeResponse s \<and> isFinished st' = isFinished s"
    by simp
  with o(1) f show ?thesis by blast
qed

lemma process_event_not_second:
  assumes "is_answer_delta rt et ed" and "deltaCount st \<noteq> 1"
    and "process_event rt et ed st = Inr st'"
  shows "completeResponse st' = completeResponse st \<and> isFinished st' = isFinished st"
proof -
  from process_event_answer_steps [OF assms(1,3)] obtain obj s
    where o: "get_prop obj (ascii ''type'') = Some (JStr (ascii ''answer''))"
      "count_delta rt ed obj st = Inr s" "regular_event rt et obj s = Inr st'"
    by blast
  from assms(1) have et: "et = ascii ''conversation.message.delta''"
    by (simp add: is_answer_delta_def)
  from o(2) have s: "s = st\<lparr> deltaCount := Suc (deltaCount st) \<rparr>"
    by (simp add: count_delta_other [OF assms(2)])
  from regular_answer_keeps [OF o(1)] o(3) et
  have "completeResponse st' = completeResponse s \<and> isFinished st' = isFinished s"
    by simp
  with s show ?thesis by simp
qed

lemma process_event_answer_error:
  assumes "is_answer_delta rt et ed" and "process_event rt et ed st = Inl e"
  shows "e = TypeError"
proof -
  from process_event_answer_delta [OF assms(1), of st] obtain obj
    where o: "get_prop obj (ascii ''type'') = Some (JStr (ascii ''answer''))"
      "process_event rt et ed st
         = (case count_delta rt ed obj st of
              Inl e \<Rightarrow> Inl e
            | Inr s \<Rightarrow> regular_event rt et obj s)"
    by blast
  from assms(1) have et: "et = ascii ''conversation.message.delta''"
    by (simp add: is_answer_delta_def)
  show ?thesis
  proof (cases "count_delta rt ed obj st")
    case (Inl e')
    with o(2) assms(2) have "e' = e" by simp
    with Inl count_delta_error show ?thesis by blast
  next
    case (Inr s)
    with o(2) assms(2) et
    have "regular_event rt (ascii ''conversation.message.delta'') obj s = Inl e"
      by simp
    from regular_answer_error [OF o(1) this] show ?thesis .
  qed
qed

lemma process_event_answer_returns:
  assumes "is_answer_delta rt et ed" and "JSON_parse rt ed = Some obj"
    and "deltaContent obj = JStr a" and "extractedContent ed obj = JStr b"
  shows "\<exists>s. process_event rt et ed st = Inr s"
proof -
  from process_event_answer_delta [OF assms(1), of st] assms(2)
  have o: "get_prop obj (ascii ''type'') = Some (JStr (ascii ''answer''))"
    "process_event rt et ed st
       = (case count_delta rt ed obj st of
            Inl e \<Rightarrow> Inl e
          | Inr s \<Rightarrow> regular_event rt et obj s)"
    by auto
  from assms(1) have et: "et = ascii ''conversation.message.delta''"
    by (simp add: is_answer_delta_def)
  have "\<exists>s. count_delta rt ed obj st = Inr s"
    using assms(4)
    by (simp add: count_delta_def Let_def fast_path_def length_converts_string)
  then obtain s where s: "count_delta rt ed obj st = Inr s" by blast
  have "\<exists>s'. regular_event rt (ascii ''conversation.message.delta'') obj s = Inr s'"
    unfolding regular_answer_delta [OF o(1)] using assms(3)
    by (simp add: length_converts_string)
  with o(2) s et show ?thesis by simp
qed

text \<open>
  C3. An event changes \<open>completeResponse\<close> only if it is a delta event with a payload of
  type \<open>answer\<close> and exactly one such event was handled before it: in a run from the
  initial state it is the second one. On the second one the fast path runs: when the
  event is handled without error, the anchored text of the event data, unescaped, has
  become \<open>completeResponse\<close> and \<open>isFinished\<close> is set (and likewise for the content found
  when the anchors are missing). On every other answer delta, the first and the third
  and later ones, \<open>completeResponse\<close> and \<open>isFinished\<close> stay as they were. An answer
  delta is handled without error whenever the content found in it is a string, and the
  only error it can throw is the \<open>TypeError\<close> of a content that cannot be converted to a
  string.
\<close>

theorem fast_path_second_delta:
  "(process_event rt et ed st = Inr st' \<and> completeResponse st' \<noteq> completeResponse st \<longrightarrow>
      is_answer_delta rt et ed \<and> deltaCount st = 1 \<and> deltaCount st' = 2)
   \<and> (run_events rt evs init_state = Inr st \<and> process_event rt et ed st = Inr st'
        \<and> completeResponse st' \<noteq> completeResponse st \<longrightarrow>
        is_answer_delta rt et ed
        \<and> length (filter (\<lambda>ev. is_answer_delta rt (fst ev) (snd ev)) evs) = 1)
   \<and> (is_answer_delta rt et ed \<and> deltaCount st = 1 \<and> travel_match ed \<noteq> []
        \<and> process_event rt et ed st = Inr st' \<longrightarrow>
        isFinished st'
        \<and> completeResponse st'
            = JStr (unescape_backslashes (unescape_quotes (unescape_newlines
                      (travel_match ed)))))
   \<and> (is_answer_delta rt et ed \<and> deltaCount st = 1 \<and> travel_match ed = []
        \<and> JSON_parse rt ed = Some obj \<and> truthy (extractedContent ed obj)
        \<and> process_event rt et ed st = Inr st' \<longrightarrow>
        isFinished st' \<and> completeResponse st' = extractedContent ed obj)
   \<and> (is_answer_delta rt et ed \<and> deltaCount st \<noteq> 1 \<and> process_event rt et ed st = Inr st' \<longrightarrow>
        completeResponse st' = completeResponse st \<and> isFinished st' = isFinished st)
   \<and> (is_answer_delta rt et ed \<and> JSON_parse rt ed = Some obj
        \<and> (\<exists>a. deltaContent obj = JStr a) \<and> (\<exists>b. extractedContent ed obj = JStr b) \<longrightarrow>
        (\<exists>s. process_event rt et ed st = Inr s))
   \<and> (is_answer_delta rt et ed \<and> process_event rt et ed st = Inl e \<longrightarrow> e = TypeError)"
proof -
  have 1: "process_event rt et ed st = Inr st' \<and> completeResponse st' \<noteq> completeResponse st \<longrightarrow>
      is_answer_delta rt et ed \<and> deltaCount st = 1 \<and> deltaCount st' = 2"
  proof
    assume h: "process_event rt et ed st = Inr st' \<and> completeResponse st' \<noteq> completeResponse st"
    then have a: "is_answer_delta rt et ed \<and> deltaCount st = 1"
      using process_event_complete by blast
    with h process_event_count [of rt et ed st st']
    show "is_answer_delta rt et ed \<and> deltaCount st = 1 \<and> deltaCount st' = 2"
      by simp
  qed
  have 2: "run_events rt evs init_state = Inr st \<and> process_event rt et ed st = Inr st'
        \<and> completeResponse st' \<noteq> completeResponse st \<longrightarrow>
        is_answer_delta rt et ed
        \<and> length (filter (\<lambda>ev. is_answer_delta rt (fst ev) (snd ev)) evs) = 1"
  proof
    assume h: "run_events rt evs init_state = Inr st \<and> process_event rt et ed st = Inr st'
        \<and> completeResponse st' \<noteq> completeResponse st"
    then have a: "is_answer_delta rt et ed \<and> deltaCount st = 1"
      using process_event_complete by blast
    from h run_events_count [of rt evs init_state st]
    have "deltaCount st = length (filter (\<lambda>ev. is_answer_delta rt (fst ev) (snd ev)) evs)"
      by (simp add: init_state_def)
    with a show "is_answer_delta rt et ed
        \<and> length (filter (\<lambda>ev. is_answer_delta rt (fst ev) (snd ev)) evs) = 1"
      by simp
  qed
  have 3: "is_answer_delta rt et ed \<and> deltaCount st = 1 \<and> travel_match ed \<noteq> []
        \<and> process_event rt et ed st = Inr st' \<longrightarrow>
        isFinished st'
        \<and> completeResponse st'
            = JStr (unescape_backslashes (unescape_quotes (unescape_newlines
                      (travel_match ed))))"
  proof
    assume h: "is_answer_delta rt et ed \<and> deltaCount st = 1 \<and> travel_match ed \<noteq> []
        \<and> process_event rt et ed st = Inr st'"
    then obtain obj' s where s: "fast_path rt ed obj' (st\<lparr> deltaCount := 2 \<rparr>) = Inr s"
      "completeResponse st' = completeResponse s" "isFinished st' = isFinished s"
      using process_event_second [of rt et ed st st'] by blast
    from s(1) h have "isFinished s" "completeResponse s
        = JStr (unescape_backslashes (unescape_quotes (unescape_newlines (travel_match ed))))"
      by (auto simp: fast_path_def)
    with s(2,3) show "isFinished st'
        \<and> completeResponse st'
            = JStr (unescape_backslashes (unescape_quotes (unescape_newlines
                      (travel_match ed))))"
      by simp
  qed
  have 4: "is_answer_delta rt et ed \<and> deltaCount st = 1 \<and> travel_match ed = []
        \<and> JSON_parse rt ed = Some obj \<and> truthy (extractedContent ed obj)
        \<and> process_event rt et ed st = Inr st' \<longrightarrow>
        isFinished st' \<and> completeResponse st' = extractedContent ed obj"
  proof
    assume h: "is_answer_delta rt et ed \<and> deltaCount st = 1 \<and> travel_match ed = []
        \<and> JSON_parse rt ed = Some obj \<and> truthy (extractedContent ed obj)
        \<and> process_event rt et ed st = Inr st'"
    then obtain obj' s where s: "JSON_parse rt ed = Some obj'"
      "fast_path rt ed obj' (st\<lparr> deltaCount := 2 \<rparr>) = Inr s"
      "completeResponse st' = completeResponse s" "isFinished st' = isFinished s"
      using process_event_second [of rt et ed st st'] by blast
    with h have "obj' = obj" by simp
    with s(2) h have "isFinished s" "completeResponse s = extractedContent ed obj"
      by (auto simp: fast_path_def split: if_splits)
    with s(3,4) show "isFinished st' \<and> completeResponse st' = extractedContent ed obj"
      by simp
  qed
  have 5: "is_answer_delta rt et ed \<and> deltaCount st \<noteq> 1 \<and> process_event rt et ed st = Inr st' \<longrightarrow>
        completeResponse st' = completeResponse st \<and> isFinished st' = isFinished st"
    using process_event_not_second by blast
  have 6: "is_answer_delta rt et ed \<and> JSON_parse rt ed = Some obj
        \<and> (\<exists>a. deltaContent obj = JStr a) \<and> (\<exists>b. extractedContent ed obj = JStr b) \<longrightarrow>
        (\<exists>s. process_event rt et ed st = Inr s)"
    using process_event_answer_returns by blast
  have 7: "is_answer_delta rt et ed \<and> process_event rt et ed st = Inl e \<longrightarrow> e = TypeError"
    using process_event_answer_error by blast
  from 1 2 3 4 5 6 7 show ?thesis by blast
qed

theorem fast_path_second_delta_witness:
  "length (filter (\<lambda>ev. is_answer_delta sample_runtime (fst ev) (snd ev))
             [(delta_type, answer_data (ascii ''one''))]) = 1
   \<and> is_answer_delta sample_runtime delta_type (answer_data (ascii ''two''))
   \<and> deltaCount \<lparr> accumulatedResponse = ascii ''onetwo'', completeResponse = JStr (ascii ''two''),
        deltaCount = 2, isFinished = True \<rparr> = 2
   \<and> process_event sample_runtime delta_type (answer_data (ascii ''two''))
        \<lparr> accumulatedResponse = ascii ''one'', completeResponse = JStr [],
          deltaCount = 1, isFinished = False \<rparr>
       = Inr \<lparr> accumulatedResponse = ascii ''onetwo'', completeResponse = JStr (ascii ''two''),
              deltaCount = 2, isFinished = True \<rparr>
   \<and> completeResponse \<lparr> accumulatedResponse = ascii ''onetwo'',
        completeResponse = JStr (ascii ''two''), deltaCount = 2, isFinished = True \<rparr>
       = extractedContent (answer_data (ascii ''two''))
           (JObj [(ascii ''type'', JStr (ascii ''answer'')),
                  (ascii ''content'', JStr (ascii ''two''))])
   \<and> (\<exists>s. process_event sample_runtime delta_type anchored_data
              \<lparr> accumulatedResponse = ascii ''one'', completeResponse = JStr [],
                deltaCount = 1, isFinished = False \<rparr> = Inr s
          \<and> isFinished s
          \<and> completeResponse s
              = JStr (separated_text (ascii ''A'') (ascii ''B'') (ascii ''C\"}'')))
   \<and> (\<exists>s. process_event sample_runtime delta_type (answer_data (ascii ''three''))
              \<lparr> accumulatedResponse = ascii ''onetwo'', completeResponse = JStr (ascii ''two''),
                deltaCount = 2, isFinished = True \<rparr> = Inr s
          \<and> isFinished s \<and> completeResponse s = JStr (ascii ''two''))
   \<and> process_event sample_runtime delta_type
        (ascii ''{\"type\":\"answer\",\"content\":{\"toString\":1}}'') init_state
       = Inl TypeError"
proof -
  let ?st1 = "\<lparr> accumulatedResponse = ascii ''one'', completeResponse = JStr [],
                deltaCount = 1, isFinished = False \<rparr>"
  let ?st2 = "\<lparr> accumulatedResponse = ascii ''onetwo'', completeResponse = JStr (ascii ''two''),
                deltaCount = 2, isFinished = True \<rparr>"
  let ?obj = "JObj [(ascii ''type'', JStr (ascii ''answer'')), (ascii ''content'', JStr (ascii ''two''))]"
  let ?obj3 = "JObj [(ascii ''type'', JStr (ascii ''answer'')), (ascii ''content'', JStr (ascii ''three''))]"
  let ?objA = "JObj [(ascii ''type'', JStr (ascii ''answer'')),
                     (ascii ''content'',
                      JStr (separated_text (ascii ''A'') (ascii ''B'') (ascii ''C'')))]"
  let ?bad = "ascii ''{\"type\":\"answer\",\"content\":{\"toString\":1}}''"
  have r: "run_events sample_runtime [(delta_type, answer_data (ascii ''one''))] init_state
             = Inr ?st1"
    by code_simp
  have p: "process_event sample_runtime delta_type (answer_data (ascii ''two'')) ?st1 = Inr ?st2"
    by code_simp
  have c: "completeResponse ?st2 \<noteq> completeResponse ?st1"
    by (simp add: ascii_def)
  have a2: "is_answer_delta sample_runtime delta_type (answer_data (ascii ''two''))"
    and a3: "is_answer_delta sample_runtime delta_type (answer_data (ascii ''three''))"
    and aA: "is_answer_delta sample_runtime delta_type anchored_data"
    and aB: "is_answer_delta sample_runtime delta_type ?bad"
    by code_simp+
  have t: "travel_match (answer_data (ascii ''two'')) = []"
    and j: "JSON_parse sample_runtime (answer_data (ascii ''two'')) = Some ?obj"
    and x: "extractedContent (answer_data (ascii ''two'')) ?obj = JStr (ascii ''two'')"
    by code_simp+
  have x': "truthy (extractedContent (answer_data (ascii ''two'')) ?obj)"
    unfolding x by (simp add: ascii_def)
  have j3: "JSON_parse sample_runtime (answer_data (ascii ''three'')) = Some ?obj3"
    and d3: "deltaContent ?obj3 = JStr (ascii ''three'')"
    and x3: "extractedContent (answer_data (ascii ''three'')) ?obj3 = JStr (ascii ''three'')"
    by code_simp+
  have jA: "JSON_parse sample_runtime anchored_data = Some ?objA"
    and dA: "deltaContent ?objA = JStr (separated_text (ascii ''A'') (ascii ''B'') (ascii ''C''))"
    and xA: "extractedContent anchored_data ?objA
               = JStr (separated_text (ascii ''A'') (ascii ''B'') (ascii ''C''))"
    by code_simp+
  have tA: "travel_match anchored_data \<noteq> []"
    and uA: "unescape_backslashes (unescape_quotes (unescape_newlines (travel_match anchored_data)))
               = separated_text (ascii ''A'') (ascii ''B'') (ascii ''C\"}'')"
    by code_simp+
  have d: "deltaCount ?st1 = 1" "deltaCount ?st2 \<noteq> 1"
    by simp_all
  have "case process_event sample_runtime delta_type ?bad init_state of
          Inl e \<Rightarrow> True | Inr s \<Rightarrow> False"
    by code_simp
  then have b: "\<exists>e. process_event sample_runtime delta_type ?bad init_state = Inl e"
    by (cases "process_event sample_runtime delta_type ?bad init_state") simp_all
  note c2 = conjunct2
  from fast_path_second_delta [where rt = sample_runtime and et = delta_type
      and ed = "answer_data (ascii ''two'')" and st = ?st1 and st' = ?st2
      and evs = "[(delta_type, answer_data (ascii ''one''))]", THEN c2, THEN conjunct1] r p c
  have 1: "length (filter (\<lambda>ev. is_answer_delta sample_runtime (fst ev) (snd ev))
             [(delta_type, answer_data (ascii ''one''))]) = 1"
    by blast
  from fast_path_second_delta [where rt = sample_runtime and et = delta_type
      and ed = anchored_data and st = ?st1 and obj = ?objA,
      THEN c2, THEN c2, THEN c2, THEN c2, THEN c2, THEN conjunct1] aA jA dA xA
  obtain s where s: "process_event sample_runtime delta_type anchored_data ?st1 = Inr s"
    by blast
  from fast_path_second_delta [where rt = sample_runtime and et = delta_type
      and ed = anchored_data and st = ?st1 and st' = s, THEN c2, THEN c2, THEN conjunct1]
    aA d(1) tA s
  have "isFinished s
        \<and> completeResponse s
            = JStr (unescape_backslashes (unescape_quotes (unescape_newlines
                      (travel_match anchored_data))))"
    by blast
  with s have 2: "\<exists>s. process_event sample_runtime delta_type anchored_data ?st1 = Inr s
          \<and> isFinished s
          \<and> completeResponse s
              = JStr (separated_text (ascii ''A'') (ascii ''B'') (ascii ''C\"}''))"
    unfolding uA by blast
  from fast_path_second_delta [where rt = sample_runtime and et = delta_type
      and ed = "answer_data (ascii ''three'')" and st = ?st2 and obj = ?obj3,
      THEN c2, THEN c2, THEN c2, THEN c2, THEN c2, THEN conjunct1] a3 j3 d3 x3
  obtain s3 where s3: "process_event sample_runtime delta_type (answer_data (ascii ''three'')) ?st2
      = Inr s3"
    by blast
  from fast_path_second_delta [where rt = sample_runtime and et = delta_type
      and ed = "answer_data (ascii ''three'')" and st = ?st2 and st' = s3,
      THEN c2, THEN c2, THEN c2, THEN c2, THEN conjunct1] a3 d(2) s3
  have "completeResponse s3 = completeResponse ?st2 \<and> isFinished s3 = isFinished ?st2"
    by blast
  with s3 have 3: "\<exists>s. process_event sample_runtime delta_type (answer_data (ascii ''three'')) ?st2
        = Inr s \<and> isFinished s \<and> completeResponse s = JStr (ascii ''two'')"
    by simp
  from b obtain e where e: "process_event sample_runtime delta_type ?bad init_state = Inl e"
    by blast
  from fast_path_second_delta [where rt = sample_runtime and et = delta_type
      and ed = ?bad and st = init_state and e = e,
      THEN c2, THEN c2, THEN c2, THEN c2, THEN c2, THEN c2] aB e
  have "e = TypeError" by blast
  with e have 4: "process_event sample_runtime delta_type ?bad init_state = Inl TypeError"
    by simp
  from fast_path_second_delta [where rt = sample_runtime and et = delta_type
      and ed = "answer_data (ascii ''two'')" and st = ?st1 and st' = ?st2 and obj = ?obj,
      THEN c2, THEN c2, THEN c2, THEN conjunct1]
    a2 d(1) t j x' p
  have 5: "completeResponse ?st2 = extractedContent (answer_data (ascii ''two'')) ?obj"
    by blast
  from fast_path_second_delta [where rt = sample_runtime and et = delta_type
      and ed = "answer_data (ascii ''two'')" and st = ?st1 and st' = ?st2, THEN conjunct1] p c
  have 6: "is_answer_delta sample_runtime delta_type (answer_data (ascii ''two''))"
    and 7: "deltaCount ?st2 = 2"
    by blast+
  show ?thesis
    using 1 6 7 p 5 2 3 4 by (intro conjI)
qed

section \<open>Properties of the loops\<close>

lemma process_event_after_second:
  assumes "2 \<le> deltaCount st" and "process_event rt et ed st = Inr st'"
  shows "completeResponse st' = completeResponse st \<and> 2 \<le> deltaCount st'"
proof -
  have "completeResponse st' = completeResponse st"
    using assms process_event_complete [of rt et ed st st'] by auto
  moreover have "2 \<le> deltaCount st'"
    using assms process_event_count [of rt et ed st st'] by simp
  ultimately show ?thesis by simp
qed

lemma handle_chunk_after_second:
  assumes "2 \<le> deltaCount st" and "handle_chunk rt chunk st = Inr st'"
  shows "completeResponse st' = completeResponse st \<and> 2 \<le> deltaCount st'"
proof (cases "trim chunk = []")
  case True
  with assms show ?thesis by (simp add: handle_chunk_def)
next
  case False
  with assms(2)
  have "process_event rt (fst (parse_frame chunk)) (snd (parse_frame chunk)) st = Inr st'"
    by (simp add: handle_chunk_def)
  from process_event_after_second [OF assms(1) this] show ?thesis .
qed

lemma process_frames_after_second:
  "2 \<le> deltaCount st \<Longrightarrow> process_frames rt buf st = Inr (buf', st')
   \<Longrightarrow> completeResponse st' = completeResponse st \<and> 2 \<le> deltaCount st'"
proof (induction rt buf st rule: process_frames.induct)
  case (1 rt buffer st)
  show ?case
  proof (cases "indexOf buffer [10, 10]")
    case None
    with "1.prems" show ?thesis
      by (simp add: process_frames.simps [of rt buffer st])
  next
    case (Some i)
    show ?thesis
    proof (cases "handle_chunk rt (take i buffer) st")
      case (Inl e)
      with Some "1.prems"(2) show ?thesis
        by (simp add: process_frames.simps [of rt buffer st])
    next
      case (Inr st1)
      with Some "1.prems"(2)
      have r: "process_frames rt (drop (i + 2) buffer) st1 = Inr (buf', st')"
        by (simp add: process_frames.simps [of rt buffer st])
      from handle_chunk_after_second [OF "1.prems"(1) Inr]
      have h: "completeResponse st1 = completeResponse st" "2 \<le> deltaCount st1"
        by simp_all
      from "1.IH" [OF Some Inr h(2) r] h(1) show ?thesis by simp
    qed
  qed
qed

lemma read_loop_after_second:
  "2 \<le> deltaCount st \<Longrightarrow> read_loop rt texts buf st = Inr (buf', st')
   \<Longrightarrow> completeResponse st' = completeResponse st \<and> 2 \<le> deltaCount st'"
proof (induction texts arbitrary: buf st)
  case Nil
  then show ?case by simp
next
  case (Cons t texts)
  show ?case
  proof (cases "isFinished st")
    case True
    with Cons.prems show ?thesis by simp
  next
    case False
    with Cons.prems(2) obtain buf1 st1
      where p: "process_frames rt (buf @ t) st = Inr (buf1, st1)"
        and r: "read_loop rt texts buf1 st1 = Inr (buf', st')"
      by (auto split: sum.splits)
    from process_frames_after_second [OF Cons.prems(1) p]
    have h: "completeResponse st1 = completeResponse st" "2 \<le> deltaCount st1"
      by simp_all
    from Cons.IH [OF h(2) r] h(1) show ?thesis by simp
  qed
qed

lemma run_events_after_second:
  "2 \<le> deltaCount st \<Longrightarrow> run_events rt evs st = Inr st'
   \<Longrightarrow> completeResponse st' = completeResponse st \<and> 2 \<le> deltaCount st'"
proof (induction evs arbitrary: st)
  case Nil
  then show ?case by simp
next
  case (Cons ev evs)
  from Cons.prems(2) obtain st1 where p: "process_event rt (fst ev) (snd ev) st = Inr st1"
    and r: "run_events rt evs st1 = Inr st'"
    by (auto split: sum.splits)
  from process_event_after_second [OF Cons.prems(1) p]
  have h: "completeResponse st1 = completeResponse st" "2 \<le> deltaCount st1"
    by simp_all
  from Cons.IH [OF h(2) r] h(1) show ?case by simp
qed

text \<open>
  C6. Once an event has assigned \<open>completeResponse\<close>, nothing that is handled afterwards
  changes it: not the frames still in the buffer, not the texts read later, not any
  later event, answer deltas included.
\<close>

theorem completeResponse_assigned_once:
  assumes "process_event rt et ed st0 = Inr st1"
    and "completeResponse st1 \<noteq> completeResponse st0"
  shows "(process_frames rt buf st1 = Inr (buf', st2) \<longrightarrow>
            completeResponse st2 = completeResponse st1)
       \<and> (read_loop rt texts buf st1 = Inr (buf', st2) \<longrightarrow>
            completeResponse st2 = completeResponse st1)
       \<and> (run_events rt evs st1 = Inr st2 \<longrightarrow> completeResponse st2 = completeResponse st1)"
proof -
  from assms have "is_answer_delta rt et ed \<and> deltaCount st0 = 1"
    using process_event_complete by blast
  with process_event_count [OF assms(1)] have d: "2 \<le> deltaCount st1"
    by simp
  show ?thesis
    using process_frames_after_second [OF d] read_loop_after_second [OF d]
      run_events_after_second [OF d]
    by blast
qed

theorem completeResponse_assigned_once_witness:
  "process_frames sample_runtime
      (answer_frame (ascii ''three'') @ [10, 10] @ answer_frame (ascii ''one'') @ [10, 10])
      \<lparr> accumulatedResponse = ascii ''onetwo'', completeResponse = JStr (ascii ''two''),
        deltaCount = 2, isFinished = True \<rparr>
    = Inr ([], \<lparr> accumulatedResponse = ascii ''onetwothreeone'',
                 completeResponse = JStr (ascii ''two''), deltaCount = 4, isFinished = True \<rparr>)
   \<and> completeResponse \<lparr> accumulatedResponse = ascii ''onetwothreeone'',
        completeResponse = JStr (ascii ''two''), deltaCount = 4, isFinished = True \<rparr>
      = completeResponse \<lparr> accumulatedResponse = ascii ''onetwo'',
          completeResponse = JStr (ascii ''two''), deltaCount = 2, isFinished = True \<rparr>"
proof -
  let ?st0 = "\<lparr> accumulatedResponse = ascii ''one'', completeResponse = JStr [],
                deltaCount = 1, isFinished = False \<rparr>"
  let ?st1 = "\<lparr> accumulatedResponse = ascii ''onetwo'', completeResponse = JStr (ascii ''two''),
                deltaCount = 2, isFinished = True \<rparr>"
  let ?st2 = "\<lparr> accumulatedResponse = ascii ''onetwothreeone'',
                completeResponse = JStr (ascii ''two''), deltaCount = 4, isFinished = True \<rparr>"
  let ?buf = "answer_frame (ascii ''three'') @ [10, 10] @ answer_frame (ascii ''one'') @ [10, 10]"
  have p: "process_event sample_runtime delta_type (answer_data (ascii ''two'')) ?st0 = Inr ?st1"
    by code_simp
  have c: "completeResponse ?st1 \<noteq> completeResponse ?st0"
    by (simp add: ascii_def)
  have f: "process_frames sample_runtime ?buf ?st1 = Inr ([], ?st2)"
    by code_simp
  from completeResponse_assigned_once [OF p c, of ?buf "[]" ?st2] f show ?thesis
    by blast
qed

subsection \<open>One frame at the head of the buffer\<close>














section \<open>Properties of the recovery\<close>

lemma rmatch_length:
  "rmatch re s g c = Some (rest, cap) \<Longrightarrow> length rest \<le> length s"
proof (induction re s g c arbitrary: rest cap rule: rmatch.induct)
  case (1 s g c)
  then show ?case by simp
next
  case (2 a r g c)
  then show ?case by simp
next
  case (3 a r x xs g c)
  show ?case
  proof (cases "x = a")
    case True
    with "3.prems" have "rmatch r xs g c = Some (rest, cap)" by simp
    from "3.IH" [OF True this] show ?thesis by simp
  next
    case False
    with "3.prems" show ?thesis by simp
  qed
next
  case (4 k r g c)
  then show ?case by simp
next
  case (5 k r x xs g c)
  show ?case
  proof (cases "in_class k x")
    case True
    with "5.prems" have "rmatch r xs g c = Some (rest, cap)" by simp
    from "5.IH" [OF True this] show ?thesis by simp
  next
    case False
    with "5.prems" show ?thesis by simp
  qed
next
  case (6 k r g c)
  from "6.prems" have "rmatch r [] g c = Some (rest, cap)" by simp
  from "6.IH" [OF this] show ?case .
next
  case (7 k r x xs g c)
  show ?case
  proof (cases "in_class k x")
    case True
    show ?thesis
    proof (cases "rmatch (StarG k # r) xs g c")
      case None
      with True "7.prems" have "rmatch r (x # xs) g c = Some (rest, cap)" by simp
      with "7.IH"(2) [OF True None] show ?thesis by blast
    next
      case (Some res)
      with True "7.prems" have "rmatch (StarG k # r) xs g c = Some (rest, cap)" by simp
      from "7.IH"(1) [OF True this] show ?thesis by simp
    qed
  next
    case False
    with "7.prems" have "rmatch r (x # xs) g c = Some (rest, cap)" by simp
    with "7.IH"(3) [OF False] show ?thesis by blast
  qed
next
  case (8 k r g c)
  from "8.prems" have "rmatch r [] g c = Some (rest, cap)" by simp
  from "8.IH" [OF this] show ?case .
next
  case (9 k r x xs g c)
  show ?case
  proof (cases "rmatch r (x # xs) g c")
    case None
    with "9.prems" have i: "in_class k x" and m: "rmatch (StarL k # r) xs g c = Some (rest, cap)"
      by (auto split: if_splits)
    from "9.IH"(2) [OF None i m] show ?thesis by simp
  next
    case (Some res)
    with "9.prems" have "rmatch r (x # xs) g c = Some (rest, cap)" by simp
    from "9.IH"(1) [OF this] show ?thesis .
  qed
next
  case (10 r s g c)
  from "10.prems" have "rmatch r s s c = Some (rest, cap)" by simp
  from "10.IH" [OF this] show ?case .
next
  case (11 r s g c)
  from "11.prems" have "rmatch r s g (Some (take (length g - length s) g)) = Some (rest, cap)"
    by simp
  from "11.IH" [OF this] show ?case .
next
  case (12 la r s g c)
  show ?case
  proof (cases "rmatch la s g c")
    case None
    with "12.prems" show ?thesis by simp
  next
    case (Some res)
    with "12.prems" have "rmatch r s g c = Some (rest, cap)" by simp
    from "12.IH"(2) [OF Some this] show ?thesis .
  qed
next
  case (13 r s g c)
  show ?case
  proof (cases "s = []")
    case True
    with "13.prems" have "rmatch r s g c = Some (rest, cap)" by simp
    from "13.IH" [OF True this] show ?thesis .
  next
    case False
    with "13.prems" show ?thesis by simp
  qed
qed

lemma trim_nonempty: "trim s \<noteq> [] \<Longrightarrow> s \<noteq> []"
  by (auto simp: trim_def)

lemma first_text_nonempty: "first_text obj ks = Some s \<Longrightarrow> s \<noteq> []"
proof (induction ks)
  case Nil
  then show ?case by simp
next
  case (Cons k ks)
  then show ?case
    by (auto split: option.splits json.splits if_splits dest: trim_nonempty)
qed

lemma recover_loop_string:
  "\<exists>s. recover_loop rt (JStr []) js = JStr s"
proof (induction js)
  case Nil
  then show ?case by simp
next
  case (Cons j js)
  show ?case
  proof (cases "JSON_parse rt j")
    case None
    with Cons.IH show ?thesis by simp
  next
    case (Some obj)
    show ?thesis
    proof (cases "obj = JNull")
      case True
      with Some Cons.IH show ?thesis by simp
    next
      case False
      define f1 where "f1 = (case first_text obj textFields of
                               Some s \<Rightarrow> JStr s | None \<Rightarrow> JStr [])"
      define f2 where "f2 = (if \<not> truthy f1 \<and> is_object_type obj \<and> findText obj \<noteq> []
                             then JStr (findText obj) else f1)"
      have r: "recover_loop rt (JStr []) (j # js)
                 = (if truthy f2 then f2 else recover_loop rt f2 js)"
        using Some False by (simp add: f1_def f2_def Let_def)
      obtain s1 where s1: "f1 = JStr s1"
        by (cases "first_text obj textFields") (auto simp: f1_def)
      then obtain s2 where s2: "f2 = JStr s2"
        by (cases "\<not> truthy f1 \<and> is_object_type obj \<and> findText obj \<noteq> []")
          (auto simp: f2_def)
      show ?thesis
      proof (cases "truthy f2")
        case True
        with r s2 show ?thesis by simp
      next
        case False
        with s2 have "f2 = JStr []" by simp
        with r False Cons.IH show ?thesis by simp
      qed
    qed
  qed
qed

lemma str_match_whole:
  "str_match (Chr a # r) s = Some (whole, cap) \<Longrightarrow> whole \<noteq> []"
proof (induction s)
  case Nil
  then show ?case by simp
next
  case (Cons x xs)
  show ?case
  proof (cases "rmatch (Chr a # r) (x # xs) [] None")
    case None
    with Cons show ?thesis by simp
  next
    case (Some res)
    obtain rest cap' where res: "res = (rest, cap')" by (cases res)
    with Some have "rmatch r xs [] None = Some (rest, cap')"
      by (simp split: if_splits)
    from rmatch_length [OF this] have "length rest < length (x # xs)" by simp
    with Some res Cons.prems show ?thesis by auto
  qed
qed

lemma raw_recovery_nonempty:
  assumes "buf \<noteq> []"
  shows "\<exists>t. t \<noteq> [] \<and> raw_recovery rt buf (JStr []) = JStr t"
proof -
  obtain s where s: "recover_loop rt (JStr []) (match_all jsonPattern buf) = JStr s"
    using recover_loop_string by blast
  show ?thesis
  proof (cases "s = []")
    case False
    with s show ?thesis by (simp add: raw_recovery_def)
  next
    case True
    show ?thesis
    proof (cases "str_match recoveryPattern buf")
      case None
      with s True assms show ?thesis by (simp add: raw_recovery_def)
    next
      case (Some res)
      obtain whole cap where res: "res = (whole, cap)" by (cases res)
      from Some res have "whole \<noteq> []"
        using str_match_whole [of 26053 _ buf whole cap]
        by (simp add: recoveryPattern_def anchor_title_def)
      with s True Some res show ?thesis by (simp add: raw_recovery_def)
    qed
  qed
qed

lemma final_text_empty:
  assumes "accumulatedResponse st = []" and "completeResponse st = JStr []"
  shows "final_text rt buf st
         = (if buf \<noteq> [] then Inr (raw_recovery rt buf (JStr [])) else Inl EmptyResponse)"
  using assms by (simp add: final_text_def)

lemma parse_valid:
  "valid_time (now + dayCount (days params) * 86400000)
   \<Longrightarrow> \<exists>r. parseCozeResponseToItinerary now t params = Inr r"
  by (simp add: parseCozeResponseToItinerary_def Let_def split: prod.splits)

lemma parse_invalid:
  "\<not> valid_time (now + dayCount (days params) * 86400000)
   \<Longrightarrow> parseCozeResponseToItinerary now t params = Inl RangeError"
  by (simp add: parseCozeResponseToItinerary_def Let_def split: prod.splits)

text \<open>
  C5. With no accumulated text and \<open>completeResponse\<close> not set: on an empty buffer the
  final text and the ingestion fail with the error of the empty response, and so does
  an ingestion whose transport delivers nothing; on a buffer that is not empty the
  recovery gives a final text that is a string and not empty, and the result of the
  ingestion is what \<open>parseCozeResponseToItinerary\<close> makes of that text: an itinerary
  when the end date is valid, the \<open>RangeError\<close> of the end date otherwise, and never
  the error of the empty response. When no candidate object yields text and the anchors
  are not found, the final text is the buffer itself.
\<close>

theorem empty_response_or_recovery:
  "(accumulatedResponse st = [] \<and> completeResponse st = JStr [] \<longrightarrow>
      final_text rt [] st = Inl EmptyResponse \<and> finish rt params [] st = Inl EmptyResponse)
   \<and> generateCozeItinerary rt params [] = Inl EmptyResponse
   \<and> (accumulatedResponse st = [] \<and> completeResponse st = JStr [] \<and> buf \<noteq> [] \<longrightarrow>
        (\<exists>t. t \<noteq> [] \<and> final_text rt buf st = Inr (JStr t)
           \<and> finish rt params buf st = parseCozeResponseToItinerary (Date_now rt) t params))
   \<and> (accumulatedResponse st = [] \<and> completeResponse st = JStr [] \<and> buf \<noteq> []
        \<and> \<not> truthy (recover_loop rt (JStr []) (match_all jsonPattern buf))
        \<and> str_match recoveryPattern buf = None \<longrightarrow>
        final_text rt buf st = Inr (JStr buf))
   \<and> (read_loop rt texts [] init_state = Inr (buf, st) \<and> accumulatedResponse st = []
        \<and> completeResponse st = JStr [] \<longrightarrow>
        (if buf = [] then generateCozeItinerary rt params texts = Inl EmptyResponse
         else (\<exists>t. t \<noteq> [] \<and> final_text rt buf st = Inr (JStr t)
                 \<and> generateCozeItinerary rt params texts
                     = parseCozeResponseToItinerary (Date_now rt) t params)))
   \<and> (read_loop rt texts [] init_state = Inr (buf, st) \<and> accumulatedResponse st = []
        \<and> completeResponse st = JStr [] \<and> buf \<noteq> [] \<longrightarrow>
        (if valid_time (Date_now rt + dayCount (days params) * 86400000)
         then (\<exists>r. generateCozeItinerary rt params texts = Inr r)
         else generateCozeItinerary rt params texts = Inl RangeError))"
proof -
  have 1: "accumulatedResponse st = [] \<and> completeResponse st = JStr [] \<longrightarrow>
      final_text rt [] st = Inl EmptyResponse \<and> finish rt params [] st = Inl EmptyResponse"
    by (simp add: final_text_empty finish_def)
  have 2: "generateCozeItinerary rt params [] = Inl EmptyResponse"
    by (simp add: generateCozeItinerary_def init_state_def final_text_empty finish_def)
  have 3: "accumulatedResponse st = [] \<and> completeResponse st = JStr [] \<and> buf \<noteq> [] \<longrightarrow>
        (\<exists>t. t \<noteq> [] \<and> final_text rt buf st = Inr (JStr t)
           \<and> finish rt params buf st = parseCozeResponseToItinerary (Date_now rt) t params)"
  proof
    assume h: "accumulatedResponse st = [] \<and> completeResponse st = JStr [] \<and> buf \<noteq> []"
    then obtain t where t: "t \<noteq> []" "raw_recovery rt buf (JStr []) = JStr t"
      using raw_recovery_nonempty by blast
    with h have "final_text rt buf st = Inr (JStr t)"
      by (simp add: final_text_empty)
    moreover from this
    have "finish rt params buf st = parseCozeResponseToItinerary (Date_now rt) t params"
      by (simp add: finish_def)
    ultimately show "\<exists>t. t \<noteq> [] \<and> final_text rt buf st = Inr (JStr t)
           \<and> finish rt params buf st = parseCozeResponseToItinerary (Date_now rt) t params"
      using t(1) by blast
  qed
  have 4: "accumulatedResponse st = [] \<and> completeResponse st = JStr [] \<and> buf \<noteq> []
        \<and> \<not> truthy (recover_loop rt (JStr []) (match_all jsonPattern buf))
        \<and> str_match recoveryPattern buf = None \<longrightarrow>
        final_text rt buf st = Inr (JStr buf)"
    by (simp add: final_text_empty raw_recovery_def)
  have 5: "read_loop rt texts [] init_state = Inr (buf, st) \<and> accumulatedResponse st = []
        \<and> completeResponse st = JStr [] \<longrightarrow>
        (if buf = [] then generateCozeItinerary rt params texts = Inl EmptyResponse
         else (\<exists>t. t \<noteq> [] \<and> final_text rt buf st = Inr (JStr t)
                 \<and> generateCozeItinerary rt params texts
                     = parseCozeResponseToItinerary (Date_now rt) t params))"
  proof
    assume h: "read_loop rt texts [] init_state = Inr (buf, st) \<and> accumulatedResponse st = []
        \<and> completeResponse st = JStr []"
    then have g: "generateCozeItinerary rt params texts = finish rt params buf st"
      by (simp add: generateCozeItinerary_def)
    show "if buf = [] then generateCozeItinerary rt params texts = Inl EmptyResponse
         else (\<exists>t. t \<noteq> [] \<and> final_text rt buf st = Inr (JStr t)
                 \<and> generateCozeItinerary rt params texts
                     = parseCozeResponseToItinerary (Date_now rt) t params)"
    proof (cases "buf = []")
      case True
      with h g 1 show ?thesis by simp
    next
      case False
      with h 3 obtain t where "t \<noteq> []" "final_text rt buf st = Inr (JStr t)"
        "finish rt params buf st = parseCozeResponseToItinerary (Date_now rt) t params"
        by blast
      with g False show ?thesis by auto
    qed
  qed
  have 6: "read_loop rt texts [] init_state = Inr (buf, st) \<and> accumulatedResponse st = []
        \<and> completeResponse st = JStr [] \<and> buf \<noteq> [] \<longrightarrow>
        (if valid_time (Date_now rt + dayCount (days params) * 86400000)
         then (\<exists>r. generateCozeItinerary rt params texts = Inr r)
         else generateCozeItinerary rt params texts = Inl RangeError)"
  proof
    assume h: "read_loop rt texts [] init_state = Inr (buf, st) \<and> accumulatedResponse st = []
        \<and> completeResponse st = JStr [] \<and> buf \<noteq> []"
    with 5 obtain t where t: "generateCozeItinerary rt params texts
        = parseCozeResponseToItinerary (Date_now rt) t params"
      by auto
    show "if valid_time (Date_now rt + dayCount (days params) * 86400000)
         then (\<exists>r. generateCozeItinerary rt params texts = Inr r)
         else generateCozeItinerary rt params texts = Inl RangeError"
      unfolding t using parse_valid [of "Date_now rt" params t]
        parse_invalid [of "Date_now rt" params t]
      by simp
  qed
  from 1 2 3 4 5 6 show ?thesis by blast
qed

theorem empty_response_or_recovery_witness:
  "generateCozeItinerary sample_runtime sample_params [ping_frame @ [10, 10]] = Inl EmptyResponse
   \<and> final_text sample_runtime (ascii ''garbage'') init_state = Inr (JStr (ascii ''garbage''))
   \<and> (\<exists>r. generateCozeItinerary sample_runtime sample_params [ascii ''garbage''] = Inr r)
   \<and> generateCozeItinerary sample_runtime (sample_params\<lparr> days := ascii ''100000000'' \<rparr>)
        [ascii ''garbage''] = Inl RangeError
   \<and> final_text sample_runtime [] init_state = Inl EmptyResponse
   \<and> finish sample_runtime sample_params [] init_state = Inl EmptyResponse
   \<and> (\<exists>t. t \<noteq> [] \<and> final_text sample_runtime (ascii ''garbage'') init_state = Inr (JStr t)
          \<and> finish sample_runtime sample_params (ascii ''garbage'') init_state
              = parseCozeResponseToItinerary (Date_now sample_runtime) t sample_params)"
proof -
  let ?big = "sample_params\<lparr> days := ascii ''100000000'' \<rparr>"
  have r1: "read_loop sample_runtime [ping_frame @ [10, 10]] [] init_state = Inr ([], init_state)"
    by code_simp
  have r2: "read_loop sample_runtime [ascii ''garbage''] [] init_state
              = Inr (ascii ''garbage'', init_state)"
    by code_simp
  have i: "accumulatedResponse init_state = []" "completeResponse init_state = JStr []"
    by (simp_all add: init_state_def)
  have n: "ascii ''garbage'' \<noteq> []"
    by (simp add: ascii_def)
  have l: "\<not> truthy (recover_loop sample_runtime (JStr []) (match_all jsonPattern (ascii ''garbage'')))"
    "str_match recoveryPattern (ascii ''garbage'') = None"
    by code_simp+
  have v: "valid_time (Date_now sample_runtime + dayCount (days sample_params) * 86400000)"
    "\<not> valid_time (Date_now sample_runtime + dayCount (days ?big) * 86400000)"
    by code_simp+
  from empty_response_or_recovery [where rt = sample_runtime and st = init_state
      and texts = "[ping_frame @ [10, 10]]" and buf = "[]" and params = sample_params] r1 i
  have 1: "generateCozeItinerary sample_runtime sample_params [ping_frame @ [10, 10]]
             = Inl EmptyResponse"
    by simp
  from empty_response_or_recovery [where rt = sample_runtime and st = init_state
      and texts = "[ascii ''garbage'']" and buf = "ascii ''garbage''" and params = sample_params]
    r2 i n l v(1)
  have 2: "final_text sample_runtime (ascii ''garbage'') init_state = Inr (JStr (ascii ''garbage''))"
    and 3: "\<exists>r. generateCozeItinerary sample_runtime sample_params [ascii ''garbage''] = Inr r"
    by simp_all
  from empty_response_or_recovery [where rt = sample_runtime and st = init_state
      and texts = "[ascii ''garbage'']" and buf = "ascii ''garbage''" and params = ?big]
    r2 i n v(2)
  have 4: "generateCozeItinerary sample_runtime ?big [ascii ''garbage''] = Inl RangeError"
    by simp
  from empty_response_or_recovery [where rt = sample_runtime and st = init_state
      and params = sample_params, THEN conjunct1] i
  have 5: "final_text sample_runtime [] init_state = Inl EmptyResponse"
    and 6: "finish sample_runtime sample_params [] init_state = Inl EmptyResponse"
    by blast+
  from empty_response_or_recovery [where rt = sample_runtime and st = init_state
      and buf = "ascii ''garbage''" and params = sample_params,
      THEN conjunct2, THEN conjunct2, THEN conjunct1] i n
  have 7: "\<exists>t. t \<noteq> [] \<and> final_text sample_runtime (ascii ''garbage'') init_state = Inr (JStr t)
          \<and> finish sample_runtime sample_params (ascii ''garbage'') init_state
              = parseCozeResponseToItinerary (Date_now sample_runtime) t sample_params"
    by blast
  show ?thesis
    using 1 2 3 4 5 6 7 by (intro conjI)
qed

end
